theory Spec2Isabelle
  imports Main "HOL-Library.Sublist" "HOL-Library.AList" "HOL-Library.Word"
begin

section \<open>Strings and the regular expressions of the create command\<close>

text \<open>
  A JavaScript string is a sequence of UTF-16 code units, 16-bit words. \<open>Lat c\<close> is the
  code unit of the character \<open>c\<close>, and \<open>str\<close> writes a text as a string: the patterns of the
  source are all ASCII.
\<close>

type_synonym cu = "16 word"

type_synonym jstring = "cu list"

abbreviation Lat :: "char \<Rightarrow> cu" where
  "Lat c \<equiv> of_char c"

abbreviation str :: "string \<Rightarrow> jstring" where
  "str s \<equiv> map Lat s"

text \<open>
  The source uses regular expressions built from literal text, character classes, a greedy
  \<open>*\<close> or \<open>+\<close> over a character class, one capturing group \<open>([^<]+)\<close>, the anchors
  \<open>^\<close> and \<open>$\<close>, and a top-level alternation. The matcher below is the backtracking
  matcher of the language for this fragment: a greedy quantifier tries the longest run
  first and gives characters back one at a time.
\<close>

datatype cls = Lower | LowerDigit | LowerDigitHyphen | NotLt | Space

definition is_lower :: "cu \<Rightarrow> bool" where
  "is_lower c = (97 \<le> unat c \<and> unat c \<le> 122)"

definition is_digit :: "cu \<Rightarrow> bool" where
  "is_digit c = (48 \<le> unat c \<and> unat c \<le> 57)"

text \<open>The class \<open>\s\<close>, the white space and line terminators of the language: tab, line
  feed, vertical tab, form feed, carriage return, space, the no-break space, U+1680,
  U+2000 to U+200A, U+2028, U+2029, U+202F, U+205F, U+3000 and U+FEFF.\<close>

definition is_space :: "cu \<Rightarrow> bool" where
  "is_space c =
     (c \<in> {9, 10, 11, 12, 13, 32, 160, 5760, 8232, 8233, 8239, 8287, 12288, 65279} \<or>
      (8192 \<le> c \<and> c \<le> 8202))"

fun in_cls :: "cls \<Rightarrow> cu \<Rightarrow> bool" where
  "in_cls Lower c = is_lower c"
| "in_cls LowerDigit c = (is_lower c \<or> is_digit c)"
| "in_cls LowerDigitHyphen c = (is_lower c \<or> is_digit c \<or> c = Lat CHR ''-'')"
| "in_cls NotLt c = (c \<noteq> Lat CHR ''<'')"
| "in_cls Space c = is_space c"

datatype item =
    Lit jstring     \<comment> \<open>literal text\<close>
  | One cls         \<comment> \<open>one character of a class\<close>
  | Star cls        \<comment> \<open>greedy \<open>*\<close> over a class\<close>
  | CapPlus cls     \<comment> \<open>a capturing group around a greedy \<open>+\<close> over a class\<close>
  | Bol             \<comment> \<open>\<open>^\<close>\<close>
  | Eol             \<comment> \<open>\<open>$\<close>\<close>

text \<open>\<open>try_down f lo k\<close> is the first success among \<open>f k, f (k - 1), \<dots>, f lo\<close>.\<close>

fun try_down :: "(nat \<Rightarrow> 'a option) \<Rightarrow> nat \<Rightarrow> nat \<Rightarrow> 'a option" where
  "try_down f lo 0 = (if lo = 0 then f 0 else None)"
| "try_down f lo (Suc k) =
     (if Suc k < lo then None
      else (case f (Suc k) of Some r \<Rightarrow> Some r | None \<Rightarrow> try_down f lo k))"

text \<open>\<open>m_items p pos s\<close> matches the sequence \<open>p\<close> against \<open>s\<close>, the input from index
  \<open>pos\<close> on; it returns the index where the match ends and the captures.\<close>

fun m_items :: "item list \<Rightarrow> nat \<Rightarrow> jstring \<Rightarrow> (nat \<times> jstring list) option" where
  "m_items [] pos s = Some (pos, [])"
| "m_items (Lit l # p) pos s =
     (if prefix l s then m_items p (pos + length l) (drop (length l) s) else None)"
| "m_items (One c # p) pos s =
     (case s of [] \<Rightarrow> None
      | x # xs \<Rightarrow> if in_cls c x then m_items p (Suc pos) xs else None)"
| "m_items (Star c # p) pos s =
     try_down (\<lambda>k. m_items p (pos + k) (drop k s)) 0 (length (takeWhile (in_cls c) s))"
| "m_items (CapPlus c # p) pos s =
     try_down (\<lambda>k. map_option (\<lambda>(e, caps). (e, take k s # caps))
                      (m_items p (pos + k) (drop k s)))
       1 (length (takeWhile (in_cls c) s))"
| "m_items (Bol # p) pos s = (if pos = 0 then m_items p pos s else None)"
| "m_items (Eol # p) pos s = (if s = [] then m_items p pos s else None)"

text \<open>A regular expression is a list of alternatives, tried in order.\<close>

type_synonym regex = "item list list"

fun first_alt :: "regex \<Rightarrow> nat \<Rightarrow> jstring \<Rightarrow> (nat \<times> jstring list) option" where
  "first_alt [] pos s = None"
| "first_alt (a # as) pos s =
     (case m_items a pos s of Some r \<Rightarrow> Some r | None \<Rightarrow> first_alt as pos s)"

text \<open>\<open>RegExp.prototype.test\<close> without the global flag: is there a match starting at
  some index, tried from left to right.\<close>

fun rx_search :: "regex \<Rightarrow> nat \<Rightarrow> jstring \<Rightarrow> bool" where
  "rx_search r pos [] = (first_alt r pos [] \<noteq> None)"
| "rx_search r pos (c # cs) =
     (first_alt r pos (c # cs) \<noteq> None \<or> rx_search r (Suc pos) cs)"

definition rx_test :: "regex \<Rightarrow> jstring \<Rightarrow> bool" where
  "rx_test r s = rx_search r 0 s"

subsection \<open>Replacement templates\<close>

definition digit_val :: "cu \<Rightarrow> nat" where
  "digit_val c = unat c - 48"

text \<open>The expansion of a replacement string (\<open>GetSubstitution\<close>): \<open>$$\<close>, \<open>$&\<close>,
  \<open>$`\<close>, \<open>$'\<close>, and \<open>$n\<close>, \<open>$nn\<close> for the captures. A two-digit reference beyond the
  number of groups is read as a one-digit reference; a reference to no group stays as it is
  written. The patterns have no named groups, so \<open>$<\<close> is literal.\<close>

fun expand :: "jstring \<Rightarrow> jstring \<Rightarrow> jstring \<Rightarrow> jstring \<Rightarrow> jstring list \<Rightarrow> jstring" where
  "expand [] matched pre post caps = []"
| "expand (c # t) matched pre post caps =
     (if c \<noteq> Lat CHR ''$'' then c # expand t matched pre post caps
      else (case t of
          [] \<Rightarrow> [c]
        | d # t1 \<Rightarrow>
            if d = Lat CHR ''$'' then Lat CHR ''$'' # expand t1 matched pre post caps
            else if d = Lat CHR ''&'' then matched @ expand t1 matched pre post caps
            else if d = Lat (CHR 0x60) then pre @ expand t1 matched pre post caps
            else if d = Lat (CHR 0x27) then post @ expand t1 matched pre post caps
            else if is_digit d then
              (case t1 of
                 [] \<Rightarrow>
                   (if 1 \<le> digit_val d \<and> digit_val d \<le> length caps
                    then caps ! (digit_val d - 1) else [c, d])
               | d2 # t2 \<Rightarrow>
                   if is_digit d2 \<and> 10 * digit_val d + digit_val d2 \<le> length caps
                   then (if 1 \<le> 10 * digit_val d + digit_val d2
                         then caps ! (10 * digit_val d + digit_val d2 - 1)
                                @ expand t2 matched pre post caps
                         else c # d # d2 # expand t2 matched pre post caps)
                   else (if 1 \<le> digit_val d \<and> digit_val d \<le> length caps
                         then caps ! (digit_val d - 1) @ expand t1 matched pre post caps
                         else c # d # expand t1 matched pre post caps))
            else c # expand t matched pre post caps))"

subsection \<open>Global replace\<close>

text \<open>\<open>String.prototype.replace\<close> with a global regular expression and a replacement
  string. \<open>pre\<close> is the input before the current index and \<open>s\<close> the input from it on. The
  matches are found from left to right; after a match the scan goes on at its end, and
  after an empty match one character further.\<close>

function replace_loop :: "regex \<Rightarrow> jstring \<Rightarrow> jstring \<Rightarrow> jstring \<Rightarrow> jstring" where
  "replace_loop r rep pre s =
     (case first_alt r (length pre) s of
        None \<Rightarrow> (case s of [] \<Rightarrow> [] | c # cs \<Rightarrow> c # replace_loop r rep (pre @ [c]) cs)
      | Some (e, caps) \<Rightarrow>
          if e \<le> length pre
          then expand rep [] pre s caps @
                 (case s of [] \<Rightarrow> [] | c # cs \<Rightarrow> c # replace_loop r rep (pre @ [c]) cs)
          else if s = [] then expand rep [] pre s caps
          else expand rep (take (e - length pre) s) pre (drop (e - length pre) s) caps @
                 replace_loop r rep (pre @ take (e - length pre) s) (drop (e - length pre) s))"
  by pat_completeness auto
termination
proof (relation "measure (\<lambda>(r, rep, pre, s). length s)")
  fix r :: regex and rep pre s :: jstring and x2 x y
  assume "\<not> x \<le> length pre" "s \<noteq> []"
  then have "length (drop (x - length pre) s) < length s"
    by (cases s) auto
  then show "((r, rep, pre @ take (x - length pre) s, drop (x - length pre) s), r, rep, pre, s)
    \<in> measure (\<lambda>(r, rep, pre, s). length s)"
    by simp
qed auto

declare replace_loop.simps [simp del]

definition replace_g :: "regex \<Rightarrow> jstring \<Rightarrow> jstring \<Rightarrow> jstring" where
  "replace_g r rep s = replace_loop r rep [] s"

section \<open>The name validator\<close>

text \<open>\<open>/^[a-z][a-z0-9-]*[a-z0-9]$|^[a-z]$/\<close>\<close>

definition name_regex :: regex where
  "name_regex =
     [[Bol, One Lower, Star LowerDigitHyphen, One LowerDigit, Eol],
      [Bol, One Lower, Eol]]"

definition validateProjectName :: "jstring \<Rightarrow> bool" where
  "validateProjectName name = rx_test name_regex name"

text \<open>The naming rule in the words of the specification: lowercase ASCII letters, digits
  and hyphens only, a letter first, no hyphen first or last.\<close>

definition valid_name_spec :: "jstring \<Rightarrow> bool" where
  "valid_name_spec name =
     (name \<noteq> [] \<and> list_all (\<lambda>c. is_lower c \<or> is_digit c \<or> c = Lat CHR ''-'') name \<and>
      is_lower (hd name) \<and> hd name \<noteq> Lat CHR ''-'' \<and> last name \<noteq> Lat CHR ''-'')"

section \<open>The token rewriter\<close>

definition sns_demo :: jstring where
  "sns_demo = str ''sns-demo''"

definition cleanName :: "jstring \<Rightarrow> jstring" where
  "cleanName newName = replace_g [[Lit (str ''-'')]] [] newName"

text \<open>The ten structural rules of \<open>replaceProjectNames\<close>, in the order of the source.\<close>

definition structural_rules :: "jstring \<Rightarrow> (regex \<times> jstring) list" where
  "structural_rules newName =
    [([[Lit (str ''com.xiaohongshu.sns.demo'')]], str ''com.xiaohongshu.sns.'' @ cleanName newName),
     ([[Lit (str ''<artifactId>sns-demo-parent</artifactId>'')]],
        str ''<artifactId>'' @ newName @ str ''-parent</artifactId>''),
     ([[Lit (str ''<artifactId>sns-demo-''), CapPlus NotLt, Lit (str ''</artifactId>'')]],
        str ''<artifactId>'' @ newName @ str ''-$1</artifactId>''),
     ([[Lit (str ''<artifactId>sns-demo</artifactId>'')]],
        str ''<artifactId>'' @ newName @ str ''</artifactId>''),
     ([[Lit (str ''<name>sns-demo</name>'')]], str ''<name>'' @ newName @ str ''</name>''),
     ([[Lit (str ''<name>sns-demo-''), CapPlus NotLt, Lit (str ''</name>'')]],
        str ''<name>'' @ newName @ str ''-$1</name>''),
     ([[Lit (str ''<module>sns-demo-''), CapPlus NotLt, Lit (str ''</module>'')]],
        str ''<module>'' @ newName @ str ''-$1</module>''),
     ([[Lit (str ''<artifactId>${projectName}-''), CapPlus NotLt, Lit (str ''</artifactId>'')]],
        str ''<artifactId>'' @ newName @ str ''-$1</artifactId>''),
     ([[Lit (str ''spring.application.name=sns-demo'')]], str ''spring.application.name='' @ newName),
     ([[Lit (str ''spring.application.name:''), Star Space, Lit (str ''sns-demo'')]],
        str ''spring.application.name: '' @ newName)]"

text \<open>The chain of \<open>.replace\<close> calls: each rule works on the result of the one before.\<close>

fun apply_rules :: "(regex \<times> jstring) list \<Rightarrow> jstring \<Rightarrow> jstring" where
  "apply_rules [] s = s"
| "apply_rules ((r, rep) # rs) s = apply_rules rs (replace_g r rep s)"

text \<open>The catch-all: \<open>.replace(/sns-demo/g, newName)\<close>. The loop of \<open>copyAndReplaceDir\<close>
  applies the same call to the name of each entry.\<close>

definition replace_sns_demo :: "jstring \<Rightarrow> jstring \<Rightarrow> jstring" where
  "replace_sns_demo newName s = replace_g [[Lit sns_demo]] newName s"

text \<open>\<open>replaceProjectNames\<close>; the source never reads its parameter \<open>oldName\<close>.\<close>

definition replaceProjectNames :: "jstring \<Rightarrow> jstring \<Rightarrow> jstring \<Rightarrow> jstring" where
  "replaceProjectNames content oldName newName =
     replace_sns_demo newName (apply_rules (structural_rules newName) content)"

text \<open>\<open>join sep segs\<close> writes the segments with \<open>sep\<close> between them; it is used to
  state which occurrences a global replace of a literal finds.\<close>

fun join :: "jstring \<Rightarrow> jstring list \<Rightarrow> jstring" where
  "join sep [] = []"
| "join sep [u] = u"
| "join sep (u # v # vs) = u @ sep @ join sep (v # vs)"

section \<open>UTF-8\<close>

text \<open>
  The content of a file is a sequence of bytes, one \<^typ>\<open>char\<close> per byte. The source reads
  and writes files with the encoding \<open>utf8\<close>: reading decodes the bytes into a string, and
  writing encodes the string into bytes.

  Decoding never fails: a byte sequence that is not well-formed UTF-8 gives the code point
  U+FFFD, one for every maximal ill-formed part, and the scan goes on at the byte that did
  not fit. A byte order mark is kept. \<open>utf8_points\<close> works on the values of the bytes and
  gives the code points.
\<close>

type_synonym bytes = string

definition continuation :: "int \<Rightarrow> bool" where
  "continuation b = (128 \<le> b \<and> b \<le> 191)"

fun utf8_points :: "int list \<Rightarrow> int list" where
  "utf8_points [] = []"
| "utf8_points (b # bs) =
     (if b < 128 then b # utf8_points bs
      else if 194 \<le> b \<and> b \<le> 223 then
        (case bs of
           [] \<Rightarrow> [65533]
         | c1 # r1 \<Rightarrow>
             if continuation c1 then ((b - 192) * 64 + (c1 - 128)) # utf8_points r1
             else 65533 # utf8_points bs)
      else if 224 \<le> b \<and> b \<le> 239 then
        (case bs of
           [] \<Rightarrow> [65533]
         | c1 # r1 \<Rightarrow>
             if (if b = 224 then 160 else 128) \<le> c1 \<and> c1 \<le> (if b = 237 then 159 else 191) then
               (case r1 of
                  [] \<Rightarrow> [65533]
                | c2 # r2 \<Rightarrow>
                    if continuation c2
                    then ((b - 224) * 4096 + (c1 - 128) * 64 + (c2 - 128)) # utf8_points r2
                    else 65533 # utf8_points r1)
             else 65533 # utf8_points bs)
      else if 240 \<le> b \<and> b \<le> 244 then
        (case bs of
           [] \<Rightarrow> [65533]
         | c1 # r1 \<Rightarrow>
             if (if b = 240 then 144 else 128) \<le> c1 \<and> c1 \<le> (if b = 244 then 143 else 191) then
               (case r1 of
                  [] \<Rightarrow> [65533]
                | c2 # r2 \<Rightarrow>
                    if continuation c2 then
                      (case r2 of
                         [] \<Rightarrow> [65533]
                       | c3 # r3 \<Rightarrow>
                           if continuation c3
                           then ((b - 240) * 262144 + (c1 - 128) * 4096 + (c2 - 128) * 64 +
                                   (c3 - 128)) # utf8_points r3
                           else 65533 # utf8_points r2)
                    else 65533 # utf8_points r1)
             else 65533 # utf8_points bs)
      else 65533 # utf8_points bs)"

text \<open>A code point above U+FFFF is two code units, a surrogate pair.\<close>

definition point_units :: "int \<Rightarrow> int list" where
  "point_units p =
     (if p < 65536 then [p]
      else [55296 + (p - 65536) div 1024, 56320 + (p - 65536) mod 1024])"

definition utf8_decode :: "bytes \<Rightarrow> jstring" where
  "utf8_decode bs = map word_of_int (concat (map point_units (utf8_points (map of_char bs))))"

text \<open>Encoding: a surrogate pair is one code point, a surrogate without its partner is
  written as U+FFFD.\<close>

fun units_points :: "int list \<Rightarrow> int list" where
  "units_points [] = []"
| "units_points (u # us) =
     (if 55296 \<le> u \<and> u \<le> 56319 then
        (case us of
           [] \<Rightarrow> [65533]
         | l # r \<Rightarrow>
             if 56320 \<le> l \<and> l \<le> 57343
             then (65536 + (u - 55296) * 1024 + (l - 56320)) # units_points r
             else 65533 # units_points us)
      else if 56320 \<le> u \<and> u \<le> 57343 then 65533 # units_points us
      else u # units_points us)"

definition point_bytes :: "int \<Rightarrow> int list" where
  "point_bytes p =
     (if p < 128 then [p]
      else if p < 2048 then [192 + p div 64, 128 + p mod 64]
      else if p < 65536 then [224 + p div 4096, 128 + p div 64 mod 64, 128 + p mod 64]
      else [240 + p div 262144, 128 + p div 4096 mod 64, 128 + p div 64 mod 64, 128 + p mod 64])"

definition utf8_encode :: "jstring \<Rightarrow> bytes" where
  "utf8_encode s = map char_of (concat (map point_bytes (units_points (map uint s))))"

section \<open>The file system\<close>

text \<open>
  A path is the list of its segments from the root, as \<open>path.join\<close> normalises it. A
  file holds its bytes. A directory keeps its entries in the order \<open>readdirSync\<close> lists
  them. \<open>Special\<close> stands for an entry that is neither a regular file nor a directory.
\<close>

type_synonym path = "jstring list"

datatype node = File bytes | Dir "(jstring \<times> node) list" | Special

fun lookup :: "node \<Rightarrow> path \<Rightarrow> node option" where
  "lookup n [] = Some n"
| "lookup n (x # p) =
     (case n of
        Dir es \<Rightarrow> (case map_of es x of None \<Rightarrow> None | Some c \<Rightarrow> lookup c p)
      | _ \<Rightarrow> None)"

definition existsSync :: "node \<Rightarrow> path \<Rightarrow> bool" where
  "existsSync root p = (lookup root p \<noteq> None)"

datatype fsop = OpMkdir | OpReaddir | OpStat | OpRead | OpWrite | OpRm

datatype fs_error =
    ENOENT path | ENOTDIR path | EISDIR path | EEXIST path
  | EIO fsop path     \<comment> \<open>a failure of the operation itself: permissions, a full disk\<close>
  | ECWD              \<comment> \<open>\<open>process.cwd()\<close> throws\<close>

text \<open>The error for a path that does not resolve.\<close>

fun missing :: "path \<Rightarrow> node \<Rightarrow> path \<Rightarrow> fs_error" where
  "missing whole n [] = ENOENT whole"
| "missing whole n (x # p) =
     (case n of
        Dir es \<Rightarrow> (case map_of es x of None \<Rightarrow> ENOENT whole | Some c \<Rightarrow> missing whole c p)
      | _ \<Rightarrow> ENOTDIR whole)"

text \<open>\<open>mkdirSync\<close> with \<open>recursive: true\<close>: missing directories are created along the
  path, an existing directory is no error, a file in the way is one.\<close>

fun mkdirs :: "path \<Rightarrow> node \<Rightarrow> path \<Rightarrow> fs_error + node" where
  "mkdirs whole n [] = (case n of Dir es \<Rightarrow> Inr n | _ \<Rightarrow> Inl (EEXIST whole))"
| "mkdirs whole n (x # p) =
     (case n of
        Dir es \<Rightarrow>
          (case mkdirs whole (case map_of es x of None \<Rightarrow> Dir [] | Some c \<Rightarrow> c) p of
             Inl e \<Rightarrow> Inl e
           | Inr c' \<Rightarrow> Inr (Dir (AList.update x c' es)))
      | _ \<Rightarrow> Inl (ENOTDIR whole))"

text \<open>Writing a file: the parent directory must exist; a regular file is overwritten.\<close>

fun write_at :: "path \<Rightarrow> node \<Rightarrow> path \<Rightarrow> bytes \<Rightarrow> fs_error + node" where
  "write_at whole n [] c =
     (case n of Dir es \<Rightarrow> Inl (EISDIR whole) | File old \<Rightarrow> Inr (File c) | Special \<Rightarrow> Inr Special)"
| "write_at whole n (x # p) c =
     (case n of
        Dir es \<Rightarrow>
          (case map_of es x of
             None \<Rightarrow> if p = [] then Inr (Dir (AList.update x (File c) es))
                     else Inl (ENOENT whole)
           | Some ch \<Rightarrow>
               (case write_at whole ch p c of
                  Inl e \<Rightarrow> Inl e
                | Inr ch' \<Rightarrow> Inr (Dir (AList.update x ch' es))))
      | _ \<Rightarrow> Inl (ENOTDIR whole))"

text \<open>\<open>rmSync\<close> with \<open>recursive: true, force: true\<close>: the entry goes with all below it.\<close>

fun remove_at :: "node \<Rightarrow> path \<Rightarrow> node" where
  "remove_at n [] = n"
| "remove_at n (x # p) =
     (case n of
        Dir es \<Rightarrow>
          if p = [] then Dir (AList.delete x es)
          else (case map_of es x of
                  None \<Rightarrow> n
                | Some c \<Rightarrow> Dir (AList.update x (remove_at c p) es))
      | _ \<Rightarrow> n)"

text \<open>
  The environment of one invocation: the working directory (\<open>None\<close> when \<open>process.cwd()\<close>
  throws), \<open>__dirname\<close>, \<open>process.argv[0]\<close>, and which file-system operations fail on which
  paths for reasons outside the tree (\<open>faulty\<close>). A failed operation leaves the tree as it
  was. The existence probe \<open>existsSync\<close> never throws.
\<close>

record env =
  cwd :: "path option"
  dirname :: path
  argv0 :: path
  faulty :: "fsop \<Rightarrow> path \<Rightarrow> bool"

datatype stats = IsDirectory | IsFile | IsOther

definition mkdirSync :: "env \<Rightarrow> node \<Rightarrow> path \<Rightarrow> fs_error + node" where
  "mkdirSync e root p =
     (if faulty e OpMkdir p then Inl (EIO OpMkdir p) else mkdirs p root p)"

definition readdirSync :: "env \<Rightarrow> node \<Rightarrow> path \<Rightarrow> fs_error + jstring list" where
  "readdirSync e root p =
     (if faulty e OpReaddir p then Inl (EIO OpReaddir p)
      else (case lookup root p of
              None \<Rightarrow> Inl (missing p root p)
            | Some (Dir es) \<Rightarrow> Inr (map fst es)
            | Some other \<Rightarrow> Inl (ENOTDIR p)))"

definition statSync :: "env \<Rightarrow> node \<Rightarrow> path \<Rightarrow> fs_error + stats" where
  "statSync e root p =
     (if faulty e OpStat p then Inl (EIO OpStat p)
      else (case lookup root p of
              None \<Rightarrow> Inl (missing p root p)
            | Some (Dir es) \<Rightarrow> Inr IsDirectory
            | Some (File c) \<Rightarrow> Inr IsFile
            | Some Special \<Rightarrow> Inr IsOther))"

text \<open>\<open>readFileSync\<close> and \<open>writeFileSync\<close> with the encoding \<open>utf8\<close>.\<close>

definition readFileSync :: "env \<Rightarrow> node \<Rightarrow> path \<Rightarrow> fs_error + jstring" where
  "readFileSync e root p =
     (if faulty e OpRead p then Inl (EIO OpRead p)
      else (case lookup root p of
              None \<Rightarrow> Inl (missing p root p)
            | Some (Dir es) \<Rightarrow> Inl (EISDIR p)
            | Some (File c) \<Rightarrow> Inr (utf8_decode c)
            | Some Special \<Rightarrow> Inl (EIO OpRead p)))"

definition writeFileSync :: "env \<Rightarrow> node \<Rightarrow> path \<Rightarrow> jstring \<Rightarrow> fs_error + node" where
  "writeFileSync e root p c =
     (if faulty e OpWrite p then Inl (EIO OpWrite p) else write_at p root p (utf8_encode c))"

definition rmSync :: "env \<Rightarrow> node \<Rightarrow> path \<Rightarrow> fs_error + node" where
  "rmSync e root p =
     (if faulty e OpRm p then Inl (EIO OpRm p) else Inr (remove_at root p))"

section \<open>The tree cloner\<close>

text \<open>A step of the cloner returns the tree it reached and the error it threw, if any.\<close>

type_synonym outcome = "fs_error option \<times> node"

text \<open>\<open>copyAndReplaceFile\<close>\<close>

definition copyAndReplaceFile ::
  "env \<Rightarrow> path \<Rightarrow> path \<Rightarrow> jstring \<Rightarrow> jstring \<Rightarrow> node \<Rightarrow> outcome" where
  "copyAndReplaceFile e srcFile destFile oldName newName root =
     (let destDir = butlast destFile in
      case (if \<not> existsSync root destDir then mkdirSync e root destDir else Inr root) of
        Inl err \<Rightarrow> (Some err, root)
      | Inr r1 \<Rightarrow>
          (case readFileSync e r1 srcFile of
             Inl err \<Rightarrow> (Some err, r1)
           | Inr content \<Rightarrow>
               (case writeFileSync e r1 destFile (replaceProjectNames content oldName newName) of
                  Inl err \<Rightarrow> (Some err, r1)
                | Inr r2 \<Rightarrow> (None, r2))))"

text \<open>The loop of \<open>copyAndReplaceDir\<close> over the entries of the source directory; \<open>rec\<close>
  is the recursive call for a subdirectory. \<open>None\<close> is a call that does not return.\<close>

fun for_items ::
  "(path \<Rightarrow> path \<Rightarrow> node \<Rightarrow> outcome option) \<Rightarrow> env \<Rightarrow> path \<Rightarrow> path \<Rightarrow> jstring \<Rightarrow> jstring \<Rightarrow>
     jstring list \<Rightarrow> node \<Rightarrow> outcome option" where
  "for_items rec e srcDir destDir oldName newName [] root = Some (None, root)"
| "for_items rec e srcDir destDir oldName newName (item # items) root =
     (let srcPath = srcDir @ [item];
          destItemName = replace_sns_demo newName item;
          destPath = destDir @ [destItemName]
      in case statSync e root srcPath of
           Inl err \<Rightarrow> Some (Some err, root)
         | Inr st \<Rightarrow>
             (case (if st = IsDirectory then rec srcPath destPath root
                    else if st = IsFile
                    then Some (copyAndReplaceFile e srcPath destPath oldName newName root)
                    else Some (None, root)) of
                None \<Rightarrow> None
              | Some (Some err, r1) \<Rightarrow> Some (Some err, r1)
              | Some (None, r1) \<Rightarrow> for_items rec e srcDir destDir oldName newName items r1))"

text \<open>\<open>copyAndReplaceDir\<close>. The recursion follows the tree it reads, which it may itself
  be writing to, so it is bounded by fuel: the number of nested calls allowed.\<close>

fun copyAndReplaceDir ::
  "nat \<Rightarrow> env \<Rightarrow> path \<Rightarrow> path \<Rightarrow> jstring \<Rightarrow> jstring \<Rightarrow> node \<Rightarrow> outcome option" where
  "copyAndReplaceDir 0 e srcDir destDir oldName newName root = None"
| "copyAndReplaceDir (Suc fuel) e srcDir destDir oldName newName root =
     (case (if \<not> existsSync root destDir then mkdirSync e root destDir else Inr root) of
        Inl err \<Rightarrow> Some (Some err, root)
      | Inr r1 \<Rightarrow>
          (case readdirSync e r1 srcDir of
             Inl err \<Rightarrow> Some (Some err, r1)
           | Inr items \<Rightarrow>
               for_items (\<lambda>s d r. copyAndReplaceDir fuel e s d oldName newName r)
                 e srcDir destDir oldName newName items r1))"

section \<open>The create command, cloning variant\<close>

datatype message =
    InvalidName
  | TemplateMissing path
  | TargetExists path
  | Starting jstring
  | Created jstring path
  | CreateFailed fs_error
  | PomsDetected
  | Generating jstring
  | CheckFailed fs_error

text \<open>What the command shows: an item added to the user interface, or a console warning.
  The time stamp of an item is left out.\<close>

datatype event = UiError message | UiInfo message | ConsoleWarn fs_error

text \<open>\<open>String.prototype.trim\<close>\<close>

definition trim :: "jstring \<Rightarrow> jstring" where
  "trim s = rev (dropWhile is_space (rev (dropWhile is_space s)))"

text \<open>\<open>getTemplatePath\<close>: the first candidate that exists, else the first candidate.\<close>

definition template_candidates :: "path \<Rightarrow> path \<Rightarrow> path \<Rightarrow> path list" where
  "template_candidates c d a =
     [c @ [str ''sns-demo''],
      butlast (butlast (butlast (butlast d))) @ [str ''sns-demo''],
      d @ [str ''template''],
      butlast d @ [str ''template''],
      butlast (butlast d) @ [str ''template''],
      butlast a @ [str ''template''],
      butlast (butlast a) @ [str ''template''],
      butlast (butlast a) @ [str ''lib'', str ''template'']]"

definition getTemplatePath :: "env \<Rightarrow> node \<Rightarrow> fs_error + path" where
  "getTemplatePath e root =
     (case cwd e of
        None \<Rightarrow> Inl ECWD
      | Some c \<Rightarrow>
          (case find (existsSync root) (template_candidates c (dirname e) (argv0 e)) of
             Some p \<Rightarrow> Inr p
           | None \<Rightarrow> Inr (c @ [str ''sns-demo''])))"

text \<open>What an invocation leaves: the events in order, the tree, and the exception that
  escaped the command, if any.\<close>

record result =
  events :: "event list"
  final :: node
  thrown :: "fs_error option"

text \<open>\<open>createCommand.action\<close> of the cloning variant.\<close>

definition create_action :: "nat \<Rightarrow> env \<Rightarrow> jstring \<Rightarrow> node \<Rightarrow> result option" where
  "create_action fuel e args root =
     (let projectName = trim args in
      if \<not> validateProjectName projectName
      then Some \<lparr>events = [UiError InvalidName], final = root, thrown = None\<rparr>
      else case getTemplatePath e root of
        Inl err \<Rightarrow> Some \<lparr>events = [], final = root, thrown = Some err\<rparr>
      | Inr templatePath \<Rightarrow>
          if \<not> existsSync root templatePath
          then Some \<lparr>events = [UiError (TemplateMissing templatePath)], final = root,
                 thrown = None\<rparr>
          else case cwd e of
            None \<Rightarrow> Some \<lparr>events = [], final = root, thrown = Some ECWD\<rparr>
          | Some c \<Rightarrow>
              let targetPath = c @ [projectName] in
              if existsSync root targetPath
              then Some \<lparr>events = [UiError (TargetExists targetPath)], final = root,
                     thrown = None\<rparr>
              else case copyAndReplaceDir fuel e templatePath targetPath (str ''demo'') projectName root of
                None \<Rightarrow> None
              | Some (None, r1) \<Rightarrow>
                  Some \<lparr>events = [UiInfo (Starting projectName),
                                 UiInfo (Created projectName targetPath)],
                        final = r1, thrown = None\<rparr>
              | Some (Some err, r1) \<Rightarrow>
                  if existsSync r1 targetPath
                  then (case rmSync e r1 targetPath of
                          Inr r2 \<Rightarrow>
                            Some \<lparr>events = [UiInfo (Starting projectName),
                                           UiError (CreateFailed err)],
                                  final = r2, thrown = None\<rparr>
                        | Inl cleanupError \<Rightarrow>
                            Some \<lparr>events = [UiInfo (Starting projectName),
                                           ConsoleWarn cleanupError,
                                           UiError (CreateFailed err)],
                                  final = r1, thrown = None\<rparr>)
                  else Some \<lparr>events = [UiInfo (Starting projectName),
                                      UiError (CreateFailed err)],
                             final = r1, thrown = None\<rparr>)"

section \<open>The create command, generator-driven variant\<close>

text \<open>The instruction document returned for the external generator. Its text is a fixed
  template with the project name filled in; the model keeps which of the two documents it
  is and the name.\<close>

datatype prompt = PomFilesPrompt jstring | RemainingFilesPrompt jstring

text \<open>\<open>allPomsExist\<close>, with \<open>rootPomExists\<close> as its first conjunct.\<close>

definition allPomsExist :: "node \<Rightarrow> path \<Rightarrow> jstring \<Rightarrow> bool" where
  "allPomsExist root c projectName =
     (let projectDir = projectName @ str ''-parent'' in
      existsSync root (c @ [projectDir, str ''pom.xml'']) \<and>
      existsSync root (c @ [projectDir, projectName @ str ''-app'', str ''pom.xml'']) \<and>
      existsSync root (c @ [projectDir, projectName @ str ''-domain'', str ''pom.xml'']) \<and>
      existsSync root (c @ [projectDir, projectName @ str ''-infrastructure'', str ''pom.xml'']) \<and>
      existsSync root (c @ [projectDir, projectName @ str ''-common'', str ''pom.xml'']) \<and>
      existsSync root (c @ [projectDir, projectName @ str ''-start'', str ''pom.xml'']))"

record ai_result =
  ai_events :: "event list"
  ai_final :: node
  ai_payload :: "prompt option"

text \<open>\<open>createCommand.action\<close> of the generator-driven variant. The tree is threaded through,
  so that a write would show in \<open>ai_final\<close>.\<close>

definition create_action_ai :: "env \<Rightarrow> jstring \<Rightarrow> node \<Rightarrow> ai_result" where
  "create_action_ai e args root =
     (let projectName = trim args in
      if \<not> validateProjectName projectName
      then \<lparr>ai_events = [UiError InvalidName], ai_final = root, ai_payload = None\<rparr>
      else case cwd e of
        None \<Rightarrow> \<lparr>ai_events = [UiError (CheckFailed ECWD)], ai_final = root, ai_payload = None\<rparr>
      | Some c \<Rightarrow>
          if allPomsExist root c projectName
          then \<lparr>ai_events = [UiInfo PomsDetected], ai_final = root,
                 ai_payload = Some (RemainingFilesPrompt projectName)\<rparr>
          else \<lparr>ai_events = [UiInfo (Generating projectName)], ai_final = root,
                 ai_payload = Some (PomFilesPrompt projectName)\<rparr>)"

section \<open>Correctness of the name validator\<close>

lemma try_down_None_iff:
  "try_down f lo k = None \<longleftrightarrow> (\<forall>j. lo \<le> j \<and> j \<le> k \<longrightarrow> f j = None)"
proof (induction k)
  case 0
  then show ?case by auto
next
  case (Suc k)
  show ?case
  proof (cases "Suc k < lo")
    case True
    then show ?thesis by auto
  next
    case False
    show ?thesis
    proof (cases "f (Suc k)")
      case None
      have "(\<forall>j. lo \<le> j \<and> j \<le> Suc k \<longrightarrow> f j = None) \<longleftrightarrow> (\<forall>j. lo \<le> j \<and> j \<le> k \<longrightarrow> f j = None)"
        using None by (metis le_Suc_eq)
      moreover from False None have "try_down f lo (Suc k) = try_down f lo k" by simp
      ultimately show ?thesis using Suc by simp
    next
      case (Some r)
      from False have "lo \<le> Suc k" by simp
      with Some have r: "\<not> (\<forall>j. lo \<le> j \<and> j \<le> Suc k \<longrightarrow> f j = None)"
        by (metis option.distinct(1) order_refl)
      from False Some have l: "try_down f lo (Suc k) \<noteq> None" by simp
      from l r show ?thesis by blast
    qed
  qed
qed
lemma star_end_iff:
  "(\<exists>j\<le>length (takeWhile P xs). \<exists>y. drop j xs = [y] \<and> Q y) \<longleftrightarrow>
   (xs \<noteq> [] \<and> list_all P (butlast xs) \<and> Q (last xs))"
proof
  assume "\<exists>j\<le>length (takeWhile P xs). \<exists>y. drop j xs = [y] \<and> Q y"
  then obtain j y where j: "j \<le> length (takeWhile P xs)" and d: "drop j xs = [y]" and q: "Q y"
    by blast
  from d have ne: "xs \<noteq> []" by auto
  from d have xs: "xs = take j xs @ [y]" by (metis append_take_drop_id)
  then have bl: "butlast xs = take j xs" and la: "last xs = y"
    by (metis butlast_snoc, metis last_snoc)
  have "take j xs = take j (takeWhile P xs)"
    using j by (metis append_eq_conv_conj length_take min.absorb2 takeWhile_dropWhile_id take_append take_all order_refl append_Nil2 diff_is_0_eq take_0)
  then have "list_all P (take j xs)"
    by (metis list_all_iff in_set_takeD set_takeWhileD)
  with ne bl la q show "xs \<noteq> [] \<and> list_all P (butlast xs) \<and> Q (last xs)" by simp
next
  assume a: "xs \<noteq> [] \<and> list_all P (butlast xs) \<and> Q (last xs)"
  then have xs: "xs = butlast xs @ [last xs]" by simp
  have "length (butlast xs) \<le> length (takeWhile P xs)"
    using a by (metis xs length_append_singleton length_takeWhile_le list_all_iff takeWhile_append2 takeWhile_eq_all_conv le_Suc_eq length_append  le_add1 )
  moreover have "drop (length (butlast xs)) xs = [last xs]"
    using xs by (metis append_eq_conv_conj)
  ultimately show "\<exists>j\<le>length (takeWhile P xs). \<exists>y. drop j xs = [y] \<and> Q y"
    using a by blast
qed


lemma bol_later: "pos > 0 \<Longrightarrow> first_alt name_regex pos s = None"
  by (simp add: name_regex_def)

lemma search_later: "pos > 0 \<Longrightarrow> \<not> rx_search name_regex pos s"
  by (induction s arbitrary: pos) (simp_all add: bol_later)

lemma test_name: "rx_test name_regex s \<longleftrightarrow> first_alt name_regex 0 s \<noteq> None"
  by (cases s) (simp_all add: rx_test_def search_later)

lemma alt2: "m_items [Bol, One Lower, Eol] 0 s \<noteq> None \<longleftrightarrow> (\<exists>x. s = [x] \<and> is_lower x)"
  by (cases s) auto

lemma tail_match:
  "m_items [One LowerDigit, Eol] pos s \<noteq> None \<longleftrightarrow> (\<exists>y. s = [y] \<and> (is_lower y \<or> is_digit y))"
  by (cases s) auto

lemma alt1: "m_items [Bol, One Lower, Star LowerDigitHyphen, One LowerDigit, Eol] 0 s \<noteq> None \<longleftrightarrow>
   (\<exists>x xs. s = x # xs \<and> is_lower x \<and> xs \<noteq> [] \<and> list_all (in_cls LowerDigitHyphen) (butlast xs)
      \<and> (is_lower (last xs) \<or> is_digit (last xs)))"
proof (cases s)
  case Nil
  then show ?thesis by simp
next
  case (Cons x xs)
  have "(try_down (\<lambda>k. m_items [One LowerDigit, Eol] (Suc 0 + k) (drop k xs)) 0
          (length (takeWhile (in_cls LowerDigitHyphen) xs)) \<noteq> None) \<longleftrightarrow>
        (\<exists>j\<le>length (takeWhile (in_cls LowerDigitHyphen) xs). \<exists>y. drop j xs = [y] \<and> (is_lower y \<or> is_digit y))"
    unfolding try_down_None_iff using tail_match by blast
  then show ?thesis
    using Cons star_end_iff [of "in_cls LowerDigitHyphen" xs "\<lambda>y. is_lower y \<or> is_digit y"]
    by simp
qed

lemma hyphen_not_lower_digit: "\<not> is_lower (Lat CHR ''-'')" "\<not> is_digit (Lat CHR ''-'')"
  by (simp_all add: is_lower_def is_digit_def)

lemma list_all_butlast_last:
  "xs \<noteq> [] \<Longrightarrow> list_all P xs \<longleftrightarrow> list_all P (butlast xs) \<and> P (last xs)"
  by (induction xs) auto

lemma ldh_eq: "in_cls LowerDigitHyphen = (\<lambda>c. is_lower c \<or> is_digit c \<or> c = Lat CHR ''-'')"
  by (rule ext) simp

lemma validate_iff: "validateProjectName name = valid_name_spec name"
proof -
  have "validateProjectName name \<longleftrightarrow> first_alt name_regex 0 name \<noteq> None"
    by (simp add: validateProjectName_def test_name)
  also have "\<dots> \<longleftrightarrow>
     m_items [Bol, One Lower, Star LowerDigitHyphen, One LowerDigit, Eol] 0 name \<noteq> None \<or>
     m_items [Bol, One Lower, Eol] 0 name \<noteq> None"
    unfolding name_regex_def by (simp split: option.splits del: m_items.simps)
  also have "\<dots> \<longleftrightarrow> valid_name_spec name"
  proof (cases name)
    case Nil
    then show ?thesis unfolding alt1 alt2 by (simp add: valid_name_spec_def)
  next
    case (Cons x xs)
    show ?thesis
    proof (cases "xs = []")
      case True
      with Cons show ?thesis unfolding alt1 alt2
        using hyphen_not_lower_digit by (auto simp: valid_name_spec_def)
    next
      case False
      with Cons show ?thesis unfolding alt1 alt2
        using hyphen_not_lower_digit list_all_butlast_last [OF False, of "in_cls LowerDigitHyphen"]
        by (auto simp: valid_name_spec_def ldh_eq)
    qed
  qed
  finally show ?thesis .
qed

text \<open>
  Claim C8. For every string, \<open>validateProjectName\<close> holds exactly when the string is made
  of lowercase ASCII letters, digits and hyphens, starts with a letter and neither starts
  nor ends with a hyphen; a single letter is valid and the empty string is not. The four
  examples of the specification: \<open>my-app2\<close> and \<open>a\<close> are valid, \<open>-bad\<close> and \<open>Bad\<close>
  are not.
\<close>

theorem validateProjectName_correct:
  "validateProjectName name = valid_name_spec name \<and>
   \<not> validateProjectName [] \<and>
   validateProjectName (str ''my-app2'') \<and>
   \<not> validateProjectName (str ''-bad'') \<and>
   \<not> validateProjectName (str ''Bad'') \<and>
   validateProjectName (str ''a'')"
proof -
  have "\<not> validateProjectName []" by code_simp
  moreover have "validateProjectName (str ''my-app2'')" by code_simp
  moreover have "\<not> validateProjectName (str ''-bad'')" by code_simp
  moreover have "\<not> validateProjectName (str ''Bad'')" by code_simp
  moreover have "validateProjectName (str ''a'')" by code_simp
  ultimately show ?thesis using validate_iff by simp
qed

section \<open>Properties of the token rewriter\<close>

lemma try_down_SomeD:
  "try_down f lo k = Some r \<Longrightarrow> \<exists>j. lo \<le> j \<and> j \<le> k \<and> f j = Some r"
proof (induction k)
  case 0
  then show ?case by (auto split: if_splits)
next
  case (Suc k)
  show ?case
  proof (cases "f (Suc k)")
    case None
    with Suc.prems have "try_down f lo k = Some r" by (simp split: if_splits)
    from Suc.IH [OF this] show ?thesis by (metis le_Suc_eq)
  next
    case (Some a)
    with Suc.prems have "a = r" "lo \<le> Suc k" by (simp_all split: if_splits)
    with Some show ?thesis by blast
  qed
qed

lemma sublist_drop_trans: "sublist l (drop k s) \<Longrightarrow> sublist l s"
  by (meson sublist_drop sublist_order.order_trans)

lemma m_items_lits:
  "m_items p pos s = Some r \<Longrightarrow> Lit l \<in> set p \<Longrightarrow> sublist l s"
proof (induction p arbitrary: pos s r)
  case Nil
  then show ?case by simp
next
  case (Cons i p)
  show ?case
  proof (cases i)
    case (Lit l')
    with Cons.prems have pre: "prefix l' s"
      and m: "m_items p (pos + length l') (drop (length l') s) = Some r"
      by (simp_all split: if_splits)
    show ?thesis
    proof (cases "l = l'")
      case True
      with pre show ?thesis by (auto simp: prefix_def)
    next
      case False
      with Cons.prems Lit have "Lit l \<in> set p" by simp
      from Cons.IH [OF m this] show ?thesis by (rule sublist_drop_trans)
    qed
  next
    case (One c)
    with Cons.prems obtain x xs where s: "s = x # xs" and m: "m_items p (Suc pos) xs = Some r"
      by (auto split: list.splits if_splits)
    from Cons.prems One have "Lit l \<in> set p" by simp
    from Cons.IH [OF m this] s show ?thesis by (simp add: sublist_Cons_right)
  next
    case (Star c)
    with Cons.prems obtain j where m: "m_items p (pos + j) (drop j s) = Some r"
      by (auto dest!: try_down_SomeD)
    from Cons.prems Star have "Lit l \<in> set p" by simp
    from Cons.IH [OF m this] show ?thesis by (rule sublist_drop_trans)
  next
    case (CapPlus c)
    with Cons.prems obtain j r' where m: "m_items p (pos + j) (drop j s) = Some r'"
      by (auto dest!: try_down_SomeD)
    from Cons.prems CapPlus have "Lit l \<in> set p" by simp
    from Cons.IH [OF m this] show ?thesis by (rule sublist_drop_trans)
  next
    case Bol
    with Cons.prems have m: "m_items p pos s = Some r" and "Lit l \<in> set p"
      by (simp_all split: if_splits)
    then show ?thesis by (rule Cons.IH)
  next
    case Eol
    with Cons.prems have m: "m_items p pos s = Some r" and "Lit l \<in> set p"
      by (simp_all split: if_splits)
    then show ?thesis by (rule Cons.IH)
  qed
qed

lemma first_alt_lits:
  "first_alt r pos s = Some x \<Longrightarrow> \<exists>a\<in>set r. \<forall>l. Lit l \<in> set a \<longrightarrow> sublist l s"
proof (induction r)
  case Nil
  then show ?case by simp
next
  case (Cons a r)
  show ?case
  proof (cases "m_items a pos s")
    case None
    with Cons show ?thesis by simp
  next
    case (Some y)
    then have "\<forall>l. Lit l \<in> set a \<longrightarrow> sublist l s"
      using m_items_lits by blast
    then show ?thesis by simp
  qed
qed

lemma replace_loop_no_match:
  "(\<And>u pos. suffix u s \<Longrightarrow> first_alt r pos u = None) \<Longrightarrow> replace_loop r rep pre s = s"
proof (induction s arbitrary: pre)
  case Nil
  have "first_alt r (length pre) [] = None" using Nil by simp
  then show ?case by (subst replace_loop.simps) simp
next
  case (Cons c cs)
  have "first_alt r (length pre) (c # cs) = None" using Cons.prems by simp
  moreover have "replace_loop r rep (pre @ [c]) cs = cs"
    using Cons.prems by (intro Cons.IH) (simp add: suffix_Cons)
  ultimately show ?case by (subst replace_loop.simps) simp
qed

lemma replace_g_absent:
  assumes "\<And>a. a \<in> set r \<Longrightarrow> \<exists>l. Lit l \<in> set a \<and> \<not> sublist l s"
  shows "replace_g r rep s = s"
  unfolding replace_g_def
proof (rule replace_loop_no_match)
  fix u pos
  assume u: "suffix u s"
  show "first_alt r pos u = None"
  proof (rule ccontr)
    assume "first_alt r pos u \<noteq> None"
    then obtain x where "first_alt r pos u = Some x" by blast
    from first_alt_lits [OF this] obtain a where a: "a \<in> set r"
      and l: "\<forall>l. Lit l \<in> set a \<longrightarrow> sublist l u" by blast
    from assms [OF a] obtain l where "Lit l \<in> set a" "\<not> sublist l s" by blast
    with l u show False
      by (meson sublist_order.order_trans suffix_imp_sublist)
  qed
qed

lemma sns_sub:
  "sublist sns_demo (str ''<artifactId>sns-demo-parent</artifactId>'')"
  "sublist sns_demo (str ''<artifactId>sns-demo-'')"
  "sublist sns_demo (str ''<artifactId>sns-demo</artifactId>'')"
  "sublist sns_demo (str ''<name>sns-demo</name>'')"
  "sublist sns_demo (str ''<name>sns-demo-'')"
  "sublist sns_demo (str ''<module>sns-demo-'')"
  "sublist sns_demo (str ''spring.application.name=sns-demo'')"
  "sublist sns_demo (str ''sns-demo'')"
  by (simp_all add: sns_demo_def sublist_Cons_right)

lemma not_sub_sns: "\<not> sublist sns_demo s \<Longrightarrow> sublist sns_demo l \<Longrightarrow> \<not> sublist l s"
  by (meson sublist_order.order_trans)

lemma lit_absent: "\<not> sublist l s \<Longrightarrow> replace_g [Lit l # p] rep s = s"
  by (rule replace_g_absent) auto

lemma structural_rules_absent:
  assumes "\<not> sublist sns_demo s" "\<not> sublist (str ''com.xiaohongshu.sns.demo'') s"
    "\<not> sublist (str ''<artifactId>${projectName}-'') s"
  shows "apply_rules (structural_rules newName) s = s"
proof -
  have a: "replace_g [Lit l # p] rep s = s" if "sublist sns_demo l" for l p rep
    by (rule lit_absent) (rule not_sub_sns [OF assms(1) that])
  have b: "replace_g [[Lit (str ''spring.application.name:''), Star Space, Lit (str ''sns-demo'')]] rep s = s"
    for rep
  proof (rule replace_g_absent)
    fix a
    assume "a \<in> set [[Lit (str ''spring.application.name:''), Star Space, Lit (str ''sns-demo'')]]"
    then have "Lit sns_demo \<in> set a" by (simp add: sns_demo_def)
    with assms(1) show "\<exists>l. Lit l \<in> set a \<and> \<not> sublist l s" by blast
  qed
  show ?thesis
    unfolding structural_rules_def
    by (simp only: apply_rules.simps a [OF sns_sub(1)] a [OF sns_sub(2)] a [OF sns_sub(3)]
        a [OF sns_sub(4)] a [OF sns_sub(5)] a [OF sns_sub(6)] a [OF sns_sub(7)] b
        lit_absent [OF assms(2)] lit_absent [OF assms(3)])
qed

lemma expand_plain: "Lat CHR ''$'' \<notin> set t \<Longrightarrow> expand t m pre post caps = t"
  by (induction t) auto

lemma lit_at:
  "l \<noteq> [] \<Longrightarrow> replace_loop [[Lit l]] rep pre (l @ rest) =
     expand rep l pre rest [] @ replace_loop [[Lit l]] rep (pre @ l) rest"
  by (subst replace_loop.simps) simp

lemma lit_skip:
  "\<not> prefix l (c # s) \<Longrightarrow>
     replace_loop [[Lit l]] rep pre (c # s) = c # replace_loop [[Lit l]] rep (pre @ [c]) s"
  by (subst replace_loop.simps) simp

lemma no_border:
  assumes "last l \<notin> set (butlast l)" "\<not> sublist l u" "u \<noteq> []"
  shows "\<not> prefix l (u @ l @ rest)"
proof
  assume p: "prefix l (u @ l @ rest)"
  show False
  proof (cases "length l \<le> length u")
    case True
    with p have "prefix l u" by (metis prefix_length_prefix prefixI)
    then show False using assms(2) by (auto simp: prefix_def)
  next
    case False
    with p obtain w where l: "l = u @ w" and w: "w \<noteq> []" and pw: "prefix w (l @ rest)"
      by (metis append_Nil2 append_eq_append_conv_if append_take_drop_id le_refl linorder_le_cases prefix_def same_prefix_prefix take_all_iff)
    from l assms(3) have "length w \<le> length (butlast l)" by (cases u) simp_all
    moreover from w l have "prefix (butlast l) (l @ rest)"
      by (metis append_butlast_last_id append_is_Nil_conv prefixI append.assoc)
    ultimately have "prefix w (butlast l)"
      using pw prefix_length_prefix by blast
    then have "set w \<subseteq> set (butlast l)" by (auto simp: prefix_def)
    moreover from l w have "last l \<in> set w" by simp
    ultimately show False using assms(1) by blast
  qed
qed

lemma replace_loop_absent:
  assumes "\<And>a. a \<in> set r \<Longrightarrow> \<exists>l. Lit l \<in> set a \<and> \<not> sublist l s"
  shows "replace_loop r rep pre s = s"
proof (rule replace_loop_no_match)
  fix u pos
  assume u: "suffix u s"
  show "first_alt r pos u = None"
  proof (rule ccontr)
    assume "first_alt r pos u \<noteq> None"
    then obtain x where "first_alt r pos u = Some x" by blast
    from first_alt_lits [OF this] obtain a where a: "a \<in> set r"
      and l: "\<forall>l. Lit l \<in> set a \<longrightarrow> sublist l u" by blast
    from assms [OF a] obtain l where "Lit l \<in> set a" "\<not> sublist l s" by blast
    with l u show False
      by (meson sublist_order.order_trans suffix_imp_sublist)
  qed
qed

lemma replace_lit_upto:
  assumes "l \<noteq> []" "last l \<notin> set (butlast l)" "Lat CHR ''$'' \<notin> set new"
  shows "\<not> sublist l u \<Longrightarrow>
    replace_loop [[Lit l]] new pre (u @ l @ rest) =
      u @ new @ replace_loop [[Lit l]] new (pre @ u @ l) rest"
proof (induction u arbitrary: pre)
  case Nil
  show ?case using lit_at [OF assms(1)] expand_plain [OF assms(3)] by simp
next
  case (Cons c u)
  from Cons.prems have "\<not> prefix l ((c # u) @ l @ rest)"
    by (intro no_border [OF assms(2)]) simp_all
  then have "replace_loop [[Lit l]] new pre ((c # u) @ l @ rest) =
      c # replace_loop [[Lit l]] new (pre @ [c]) (u @ l @ rest)"
    using lit_skip by simp
  moreover from Cons.prems have "\<not> sublist l u" by (simp add: sublist_Cons_right)
  ultimately show ?case using Cons.IH [of "pre @ [c]"] by simp
qed

lemma replace_lit_join:
  assumes "l \<noteq> []" "last l \<notin> set (butlast l)" "Lat CHR ''$'' \<notin> set new"
  shows "(\<forall>u\<in>set segs. \<not> sublist l u) \<Longrightarrow>
         replace_loop [[Lit l]] new pre (join l segs) = join new segs"
proof (induction segs arbitrary: pre)
  case Nil
  have "replace_loop [[Lit l]] new pre [] = []"
    using assms(1) by (intro replace_loop_absent) auto
  then show ?case by simp
next
  case (Cons u us)
  show ?case
  proof (cases us)
    case Nil
    have "replace_loop [[Lit l]] new pre u = u"
      using Cons.prems by (intro replace_loop_absent) auto
    with Nil show ?thesis by simp
  next
    case (Cons v vs)
    from Cons.prems have nu: "\<not> sublist l u" and rest: "\<forall>u\<in>set us. \<not> sublist l u"
      by simp_all
    have "replace_loop [[Lit l]] new pre (u @ l @ join l us) =
      u @ new @ replace_loop [[Lit l]] new (pre @ u @ l) (join l us)"
      using replace_lit_upto [OF assms nu] .
    also have "replace_loop [[Lit l]] new (pre @ u @ l) (join l us) = join new us"
      using Cons.IH [OF rest] .
    finally show ?thesis using Cons by simp
  qed
qed


lemma sns_demo_border_free: "sns_demo \<noteq> []" "last sns_demo \<notin> set (butlast sns_demo)"
  by (simp_all add: sns_demo_def)

lemma valid_name_no_dollar: "validateProjectName n \<Longrightarrow> Lat CHR ''$'' \<notin> set n"
proof
  assume v: "validateProjectName n" and d: "Lat CHR ''$'' \<in> set n"
  from v have "list_all (\<lambda>c. is_lower c \<or> is_digit c \<or> c = Lat CHR ''-'') n"
    by (simp add: validate_iff valid_name_spec_def)
  with d have "is_lower (Lat CHR ''$'') \<or> is_digit (Lat CHR ''$'') \<or> Lat CHR ''$'' = Lat CHR ''-''"
    by (auto simp: list_all_iff)
  then show False by (simp add: is_lower_def is_digit_def)
qed

text \<open>
  Claim C1, as amended. The rewriter leaves a content string unchanged when none of the three
  fixed texts its rules look for occurs in it: \<open>sns-demo\<close>, \<open>com.xiaohongshu.sns.demo\<close>
  and \<open><artifactId>${projectName}-\<close>. The renaming of a file or directory name leaves a
  name without \<open>sns-demo\<close> unchanged.
\<close>

theorem replaceProjectNames_noop:
  "(\<not> sublist sns_demo content \<and> \<not> sublist (str ''com.xiaohongshu.sns.demo'') content \<and>
    \<not> sublist (str ''<artifactId>${projectName}-'') content
      \<longrightarrow> replaceProjectNames content oldName newName = content) \<and>
   (\<not> sublist sns_demo item \<longrightarrow> replace_sns_demo newName item = item)"
proof -
  have "replace_sns_demo newName s = s" if "\<not> sublist sns_demo s" for s
    unfolding replace_sns_demo_def using that by (rule lit_absent)
  then show ?thesis
    by (simp add: replaceProjectNames_def structural_rules_absent)
qed

text \<open>The theorem at a content string and a name that satisfy its hypotheses.\<close>

theorem replaceProjectNames_noop_witness:
  "replaceProjectNames (str ''<version>1.0-demo</version>'') (str ''demo'') (str ''zoo'') = str ''<version>1.0-demo</version>'' \<and>
   replace_sns_demo (str ''zoo'') (str ''pom.xml'') = str ''pom.xml''"
proof -
  have "\<not> sublist sns_demo (str ''<version>1.0-demo</version>'')"
    "\<not> sublist (str ''com.xiaohongshu.sns.demo'') (str ''<version>1.0-demo</version>'')"
    "\<not> sublist (str ''<artifactId>${projectName}-'') (str ''<version>1.0-demo</version>'')"
    "\<not> sublist sns_demo (str ''pom.xml'')"
    by code_simp+
  then show ?thesis
    using replaceProjectNames_noop [of "str ''<version>1.0-demo</version>''" "str ''demo''" "str ''zoo''" "str ''pom.xml''"]
    by blast
qed

text \<open>
  The claim as stated fails: the content below contains neither the placeholder argument
  \<open>demo\<close> nor \<open>sns-demo\<close>, and the rule for \<open>${projectName}\<close> rewrites it.
\<close>

theorem replaceProjectNames_noop_counterexample:
  "\<not> sublist (str ''demo'') (str ''<artifactId>${projectName}-app</artifactId>'') \<and>
   \<not> sublist (str ''sns-demo'') (str ''<artifactId>${projectName}-app</artifactId>'') \<and>
   replaceProjectNames (str ''<artifactId>${projectName}-app</artifactId>'') (str ''demo'') (str ''zoo'')
     = str ''<artifactId>zoo-app</artifactId>'' \<and>
   replaceProjectNames (str ''<artifactId>${projectName}-app</artifactId>'') (str ''demo'') (str ''zoo'')
     \<noteq> str ''<artifactId>${projectName}-app</artifactId>''"
  by code_simp

text \<open>
  Claim C2, as amended. The catch-all replaces every occurrence of the fixed text
  \<open>sns-demo\<close> that is left after the structural rules: when that intermediate text is the
  segments \<open>segs\<close> joined by \<open>sns-demo\<close>, none of them containing \<open>sns-demo\<close>, the result
  is the same segments joined by the target name. The target name has no dollar sign, as
  every valid project name (\<open>valid_name_no_dollar\<close>).
\<close>

theorem catch_all_replaces:
  assumes "Lat CHR ''$'' \<notin> set newName"
    and "\<forall>u\<in>set segs. \<not> sublist sns_demo u"
    and "apply_rules (structural_rules newName) content = join sns_demo segs"
  shows "replaceProjectNames content oldName newName = join newName segs"
  unfolding replaceProjectNames_def replace_sns_demo_def replace_g_def assms(3)
  using replace_lit_join [OF sns_demo_border_free assms(1)] assms(2) by blast

text \<open>The example of the specification with the placeholder the code looks for.\<close>

theorem catch_all_replaces_witness:
  "replaceProjectNames (str ''prefix-sns-demo-suffix'') (str ''demo'') (str ''zoo'') = str ''prefix-zoo-suffix'' \<and>
   \<not> sublist (str ''sns-demo'') (str ''prefix-zoo-suffix'')"
proof -
  have 1: "Lat CHR ''$'' \<notin> set (str ''zoo'')" by simp
  have 2: "\<forall>u\<in>set [str ''prefix-'', str ''-suffix'']. \<not> sublist sns_demo u" by code_simp
  have 3: "apply_rules (structural_rules (str ''zoo'')) (str ''prefix-sns-demo-suffix'')
     = join sns_demo [str ''prefix-'', str ''-suffix'']" by code_simp
  have "\<not> sublist (str ''sns-demo'') (str ''prefix-zoo-suffix'')" by code_simp
  then show ?thesis
    using catch_all_replaces [OF 1 2 3, of "str ''demo''"] by simp
qed

text \<open>The example as the specification writes it: \<open>demo\<close> alone is not replaced.\<close>

theorem catch_all_counterexample:
  "replaceProjectNames (str ''prefix-demo-suffix'') (str ''demo'') (str ''zoo'') = str ''prefix-demo-suffix'' \<and>
   replaceProjectNames (str ''prefix-demo-suffix'') (str ''demo'') (str ''zoo'') \<noteq> str ''prefix-zoo-suffix'' \<and>
   sublist (str ''demo'') (replaceProjectNames (str ''prefix-demo-suffix'') (str ''demo'') (str ''zoo''))"
  by code_simp

text \<open>
  Claim C10. The result of \<open>replaceProjectNames\<close> does not depend on its argument
  \<open>oldName\<close>: for every content and target name, any two placeholder arguments give the same
  result.
\<close>

theorem replaceProjectNames_ignores_oldName:
  "replaceProjectNames content o1 targetName = replaceProjectNames content o2 targetName"
  by (simp add: replaceProjectNames_def)

section \<open>The structural rules before the catch-all\<close>

text \<open>
  The rest of the development follows one declaration
  \<open><artifactId>sns-demo-suffix</artifactId>\<close> inside an arbitrary text through the eleven
  replace calls, for the target name \<open>zoo\<close>.
\<close>

lemma try_down_map:
  "try_down (\<lambda>k. map_option g (f k)) lo n = map_option g (try_down f lo n)"
  by (induction n) (auto split: option.splits)

lemma try_down_eq:
  "(\<And>k. k \<le> n \<Longrightarrow> f k = g k) \<Longrightarrow> try_down f lo n = try_down g lo n"
proof (induction n)
  case 0
  then show ?case by simp
next
  case (Suc n)
  have "try_down f lo n = try_down g lo n" using Suc.prems by (intro Suc.IH) simp
  moreover have "f (Suc n) = g (Suc n)" using Suc.prems by simp
  ultimately show ?case by (simp split: option.splits)
qed

text \<open>Moving the start of a match moves its end by as much.\<close>

definition shift :: "nat \<Rightarrow> nat \<times> jstring list \<Rightarrow> nat \<times> jstring list" where
  "shift a r = (fst r + a, snd r)"

lemma m_items_shift:
  "Bol \<notin> set p \<Longrightarrow> m_items p (a + b) s = map_option (shift a) (m_items p b s)"
proof (induction p arbitrary: b s)
  case Nil
  then show ?case by (simp add: shift_def)
next
  case (Cons i p)
  then have IH: "\<And>b s. m_items p (a + b) s = map_option (shift a) (m_items p b s)"
    by simp
  show ?case
  proof (cases i)
    case (Lit l)
    show ?thesis using IH [of "b + length l"] by (simp add: Lit add.assoc)
  next
    case (One c)
    show ?thesis using IH [of "Suc b"] by (simp add: One split: list.splits)
  next
    case (Star c)
    have "try_down (\<lambda>k. m_items p (a + b + k) (drop k s)) 0 n =
          map_option (shift a) (try_down (\<lambda>k. m_items p (b + k) (drop k s)) 0 n)" for n
      using IH by (simp add: add.assoc try_down_map)
    then show ?thesis by (simp add: Star)
  next
    case (CapPlus c)
    have "map_option (\<lambda>(e, caps). (e, take k s # caps)) (m_items p (a + b + k) (drop k s)) =
          map_option (shift a) (map_option (\<lambda>(e, caps). (e, take k s # caps))
             (m_items p (b + k) (drop k s)))" for k
      using IH [of "b + k" "drop k s"]
      by (cases "m_items p (b + k) (drop k s)") (auto simp: add.assoc shift_def)
    then show ?thesis by (simp add: CapPlus try_down_map)
  next
    case Bol
    with Cons.prems show ?thesis by simp
  next
    case Eol
    show ?thesis using IH [of b] by (simp add: Eol)
  qed
qed

lemma m_items_bounds:
  "m_items p pos s = Some (e, caps) \<Longrightarrow> pos \<le> e \<and> e \<le> pos + length s"
proof (induction p arbitrary: pos s e caps)
  case Nil
  then show ?case by simp
next
  case (Cons i p)
  show ?case
  proof (cases i)
    case (Lit l)
    with Cons.prems have pre: "prefix l s"
      and m: "m_items p (pos + length l) (drop (length l) s) = Some (e, caps)"
      by (simp_all split: if_splits)
    from pre have "length l \<le> length s" by (rule prefix_length_le)
    with Cons.IH [OF m] show ?thesis by simp
  next
    case (One c)
    with Cons.prems obtain x xs where s: "s = x # xs" and m: "m_items p (Suc pos) xs = Some (e, caps)"
      by (auto split: list.splits if_splits)
    from Cons.IH [OF m] s show ?thesis by simp
  next
    case (Star c)
    with Cons.prems obtain j where j: "j \<le> length (takeWhile (in_cls c) s)"
      and m: "m_items p (pos + j) (drop j s) = Some (e, caps)"
      by (auto dest!: try_down_SomeD)
    from j have "j \<le> length s" using length_takeWhile_le le_trans by blast
    with Cons.IH [OF m] show ?thesis by simp
  next
    case (CapPlus c)
    with Cons.prems obtain j caps' where j: "j \<le> length (takeWhile (in_cls c) s)"
      and m: "m_items p (pos + j) (drop j s) = Some (e, caps')"
      by (auto dest!: try_down_SomeD)
    from j have "j \<le> length s" using length_takeWhile_le le_trans by blast
    with Cons.IH [OF m] show ?thesis by simp
  next
    case Bol
    with Cons.prems have m: "m_items p pos s = Some (e, caps)" by (simp split: if_splits)
    then show ?thesis by (rule Cons.IH)
  next
    case Eol
    with Cons.prems have m: "m_items p pos s = Some (e, caps)" by (simp split: if_splits)
    then show ?thesis by (rule Cons.IH)
  qed
qed


text \<open>A rule is simple when its pattern has no \<open>^\<close> and its replacement does not read
  the text around the match.\<close>

definition simple_rule :: "item list \<Rightarrow> jstring \<Rightarrow> bool" where
  "simple_rule p rep \<longleftrightarrow> Bol \<notin> set p \<and>
     (\<forall>m pre post pre' post' caps.
        expand rep m pre post caps = expand rep m pre' post' caps)"

lemma m_items_pos:
  "Bol \<notin> set p \<Longrightarrow> m_items p pos s = map_option (shift pos) (m_items p 0 s)"
  using m_items_shift [of p pos 0 s] by simp

lemma rl_Nil_None: "first_alt r (length pre) [] = None \<Longrightarrow> replace_loop r rep pre [] = []"
  by (subst replace_loop.simps) simp

lemma rl_Cons_None:
  "first_alt r (length pre) (c # cs) = None \<Longrightarrow>
   replace_loop r rep pre (c # cs) = c # replace_loop r rep (pre @ [c]) cs"
  by (subst replace_loop.simps) simp

lemma rl_Nil_Some:
  "first_alt r (length pre) [] = Some (e, caps) \<Longrightarrow>
   replace_loop r rep pre [] = expand rep [] pre [] caps"
  by (subst replace_loop.simps) simp

lemma rl_Cons_empty:
  "first_alt r (length pre) (c # cs) = Some (e, caps) \<Longrightarrow> e \<le> length pre \<Longrightarrow>
   replace_loop r rep pre (c # cs) =
     expand rep [] pre (c # cs) caps @ c # replace_loop r rep (pre @ [c]) cs"
  by (subst replace_loop.simps) simp

lemma rl_Cons_hit:
  "first_alt r (length pre) (c # cs) = Some (e, caps) \<Longrightarrow> length pre < e \<Longrightarrow>
   replace_loop r rep pre (c # cs) =
     expand rep (take (e - length pre) (c # cs)) pre (drop (e - length pre) (c # cs)) caps @
     replace_loop r rep (pre @ take (e - length pre) (c # cs)) (drop (e - length pre) (c # cs))"
  by (subst replace_loop.simps) simp

lemma replace_loop_pre:
  assumes "simple_rule p rep"
  shows "replace_loop [p] rep pre s = replace_loop [p] rep [] s"
proof (induction "length s" arbitrary: s pre rule: less_induct)
  case less
  from assms have nb: "Bol \<notin> set p"
    and cf: "\<And>m pre post pre' post' caps.
        expand rep m pre post caps = expand rep m pre' post' caps"
    by (auto simp: simple_rule_def)
  have IH: "replace_loop [p] rep pre' t = replace_loop [p] rep [] t"
    if "length t < length s" for t pre'
    using less [OF that] .
  show ?case
  proof (cases "m_items p 0 s")
    case None
    then have n: "first_alt [p] (length pre) s = None" "first_alt [p] (length ([]::jstring)) s = None"
      using m_items_pos [OF nb, of "length pre" s] by simp_all
    show ?thesis
    proof (cases s)
      case Nil
      with n show ?thesis by (simp add: rl_Nil_None)
    next
      case (Cons c cs)
      with n have "replace_loop [p] rep pre s = c # replace_loop [p] rep (pre @ [c]) cs"
        "replace_loop [p] rep [] s = c # replace_loop [p] rep ([] @ [c]) cs"
        by (simp_all only: rl_Cons_None)
      moreover have "length cs < length s" using Cons by simp
      ultimately show ?thesis using IH [of cs "pre @ [c]"] IH [of cs "[c]"] by simp
    qed
  next
    case (Some r)
    obtain e caps where r: "r = (e, caps)" by (cases r)
    with Some have m0: "first_alt [p] (length ([]::jstring)) s = Some (e, caps)" by simp
    from Some r have mp: "first_alt [p] (length pre) s = Some (e + length pre, caps)"
      using m_items_pos [OF nb, of "length pre" s] by (simp add: shift_def)
    show ?thesis
    proof (cases s)
      case Nil
      from m0 mp show ?thesis
        unfolding Nil by (simp only: rl_Nil_Some cf [of "[]" pre "[]" caps "[]" "[]"])
    next
      case (Cons c cs)
      show ?thesis
      proof (cases "e = 0")
        case True
        with m0 mp have "replace_loop [p] rep pre (c # cs) =
            expand rep [] pre (c # cs) caps @ c # replace_loop [p] rep (pre @ [c]) cs"
          "replace_loop [p] rep [] (c # cs) =
            expand rep [] [] (c # cs) caps @ c # replace_loop [p] rep ([] @ [c]) cs"
          unfolding Cons by (simp_all add: rl_Cons_empty)
        moreover have "length cs < length s" using Cons by simp
        ultimately show ?thesis
          using IH [of cs "pre @ [c]"] IH [of cs "[c]"]
            cf [of "[]" pre "c # cs" caps "[]" "c # cs"] Cons by simp
      next
        case False
        define k where "k = e + length pre - length pre"
        have k: "k = e" by (simp add: k_def)
        from False mp have "replace_loop [p] rep pre (c # cs) =
            expand rep (take k (c # cs)) pre (drop k (c # cs)) caps @
            replace_loop [p] rep (pre @ take k (c # cs)) (drop k (c # cs))"
          unfolding Cons k_def by (intro rl_Cons_hit) simp_all
        moreover from False m0 have "replace_loop [p] rep [] (c # cs) =
            expand rep (take (e - length ([]::jstring)) (c # cs)) [] (drop (e - length ([]::jstring)) (c # cs)) caps @
            replace_loop [p] rep ([] @ take (e - length ([]::jstring)) (c # cs)) (drop (e - length ([]::jstring)) (c # cs))"
          unfolding Cons by (intro rl_Cons_hit) simp_all
        moreover have "length (drop e (c # cs)) < length s" using Cons False by simp
        ultimately show ?thesis
          using IH [of "drop e (c # cs)" "pre @ take e (c # cs)"]
            IH [of "drop e (c # cs)" "take e (c # cs)"]
            cf [of "take e (c # cs)" pre "drop e (c # cs)" caps "[]" "drop e (c # cs)"] Cons k
          by simp
      qed
    qed
  qed
qed

lemma rg_Nil: "m_items p 0 [] = None \<Longrightarrow> replace_g [p] rep [] = []"
  by (simp add: replace_g_def rl_Nil_None)

lemma rg_skip:
  assumes "simple_rule p rep" "m_items p 0 (c # s) = None"
  shows "replace_g [p] rep (c # s) = c # replace_g [p] rep s"
  using assms(2) replace_loop_pre [OF assms(1), of "[c]" s]
  by (simp add: replace_g_def rl_Cons_None)

lemma rg_hit:
  assumes "simple_rule p rep" "m_items p 0 s = Some (e, caps)" "0 < e" "s \<noteq> []"
  shows "replace_g [p] rep s = expand rep (take e s) [] (drop e s) caps @ replace_g [p] rep (drop e s)"
proof -
  from assms(4) obtain c cs where s: "s = c # cs" by (cases s) auto
  have "replace_loop [p] rep [] (c # cs) =
     expand rep (take (e - length ([]::jstring)) (c # cs)) [] (drop (e - length ([]::jstring)) (c # cs)) caps @
     replace_loop [p] rep ([] @ take (e - length ([]::jstring)) (c # cs)) (drop (e - length ([]::jstring)) (c # cs))"
    using assms(2,3) unfolding s by (intro rl_Cons_hit) simp_all
  then show ?thesis
    using replace_loop_pre [OF assms(1), of "take e s" "drop e s"] s
    by (simp add: replace_g_def)
qed

text \<open>A pattern item that cannot match across the two characters \<open><\<close> and \<open>x\<close>.\<close>

fun barrier_ok :: "cu \<Rightarrow> item \<Rightarrow> bool" where
  "barrier_ok x (Lit l) = (\<not> sublist [Lat CHR ''<'', x] (l @ [x]))"
| "barrier_ok x (One c) = (\<not> in_cls c (Lat CHR ''<''))"
| "barrier_ok x (Star c) = (\<not> in_cls c (Lat CHR ''<''))"
| "barrier_ok x (CapPlus c) = (\<not> in_cls c (Lat CHR ''<''))"
| "barrier_ok x Bol = True"
| "barrier_ok x Eol = False"

lemma prefix_barrier:
  assumes "\<not> sublist [Lat CHR ''<'', x] (l @ [x])"
  shows "prefix l (u @ Lat CHR ''<'' # x # Z) \<longleftrightarrow> prefix l u"
proof
  assume "prefix l u"
  then show "prefix l (u @ Lat CHR ''<'' # x # Z)" by (rule prefix_prefix)
next
  assume "prefix l (u @ Lat CHR ''<'' # x # Z)"
  then consider "prefix l u" | us where "l = u @ us" "prefix us (Lat CHR ''<'' # x # Z)"
    by (auto simp: prefix_append)
  then show "prefix l u"
  proof cases
    case 1
    then show ?thesis .
  next
    case 2
    show ?thesis
    proof (cases us)
      case Nil
      with 2 show ?thesis by simp
    next
      case (Cons a us')
      with 2 have a: "a = Lat CHR ''<''" and p: "prefix us' (x # Z)" by simp_all
      have "sublist [Lat CHR ''<'', x] (l @ [x])"
      proof (cases us')
        case Nil
        with 2 Cons a have "l @ [x] = u @ [Lat CHR ''<'', x] @ []" by simp
        then show ?thesis by (metis sublist_appendI)
      next
        case (Cons b us'')
        with p have "b = x" by simp
        with 2 \<open>us = a # us'\<close> a Cons have "l @ [x] = u @ [Lat CHR ''<'', x] @ (us'' @ [x])" by simp
        then show ?thesis by (metis sublist_appendI)
      qed
      with assms show ?thesis by contradiction
    qed
  qed
qed

lemma takeWhile_barrier: "\<not> P z \<Longrightarrow> takeWhile P (u @ z # zs) = takeWhile P u"
  by (induction u) auto

lemma m_items_barrier:
  "list_all (barrier_ok x) p \<Longrightarrow> m_items p pos (u @ Lat CHR ''<'' # x # Z) = m_items p pos u"
proof (induction p arbitrary: pos u)
  case Nil
  then show ?case by simp
next
  case (Cons i p)
  then have IH: "\<And>pos u. m_items p pos (u @ Lat CHR ''<'' # x # Z) = m_items p pos u"
    and ok: "barrier_ok x i" by simp_all
  show ?case
  proof (cases i)
    case (Lit l)
    have pb: "prefix l (u @ Lat CHR ''<'' # x # Z) \<longleftrightarrow> prefix l u"
      using ok Lit by (intro prefix_barrier) simp
    show ?thesis
    proof (cases "prefix l u")
      case True
      then have "length l \<le> length u" by (rule prefix_length_le)
      then have "drop (length l) (u @ Lat CHR ''<'' # x # Z) = drop (length l) u @ Lat CHR ''<'' # x # Z"
        by simp
      with True pb IH show ?thesis by (simp add: Lit)
    next
      case False
      with pb show ?thesis by (simp add: Lit)
    qed
  next
    case (One c)
    with ok IH show ?thesis by (cases u) simp_all
  next
    case (Star c)
    with ok have tw: "takeWhile (in_cls c) (u @ Lat CHR ''<'' # x # Z) = takeWhile (in_cls c) u"
      by (simp add: takeWhile_barrier)
    have "m_items p (pos + k) (drop k (u @ Lat CHR ''<'' # x # Z)) = m_items p (pos + k) (drop k u)"
      if "k \<le> length (takeWhile (in_cls c) u)" for k
    proof -
      from that have "k \<le> length u" using length_takeWhile_le le_trans by blast
      then have "drop k (u @ Lat CHR ''<'' # x # Z) = drop k u @ Lat CHR ''<'' # x # Z" by simp
      with IH show ?thesis by simp
    qed
    then show ?thesis
      unfolding Star m_items.simps tw by (rule try_down_eq)
  next
    case (CapPlus c)
    with ok have tw: "takeWhile (in_cls c) (u @ Lat CHR ''<'' # x # Z) = takeWhile (in_cls c) u"
      by (simp add: takeWhile_barrier)
    have "map_option (\<lambda>(e, caps). (e, take k (u @ Lat CHR ''<'' # x # Z) # caps))
            (m_items p (pos + k) (drop k (u @ Lat CHR ''<'' # x # Z))) =
          map_option (\<lambda>(e, caps). (e, take k u # caps)) (m_items p (pos + k) (drop k u))"
      if "k \<le> length (takeWhile (in_cls c) u)" for k
    proof -
      from that have "k \<le> length u" using length_takeWhile_le le_trans by blast
      then have "drop k (u @ Lat CHR ''<'' # x # Z) = drop k u @ Lat CHR ''<'' # x # Z"
        "take k (u @ Lat CHR ''<'' # x # Z) = take k u" by simp_all
      with IH show ?thesis by simp
    qed
    then show ?thesis
      unfolding CapPlus m_items.simps tw by (rule try_down_eq)
  next
    case Bol
    with IH show ?thesis by simp
  next
    case Eol
    with ok show ?thesis by simp
  qed
qed

lemma m_items_first:
  "m_items (Lit (y # l) # q) pos (c # s) =
     (if c = y then m_items (Lit l # q) (Suc pos) s else None)"
  by simp

lemma rg_region:
  assumes "simple_rule p rep"
    and "\<And>u. suffix u S \<Longrightarrow> u \<noteq> [] \<Longrightarrow> m_items p 0 (u @ W) = None"
  shows "replace_g [p] rep (S @ W) = S @ replace_g [p] rep W"
  using assms(2)
proof (induction S)
  case Nil
  then show ?case by simp
next
  case (Cons c S)
  have "m_items p 0 (c # S @ W) = None" using Cons.prems [of "c # S"] by simp
  then have "replace_g [p] rep (c # S @ W) = c # replace_g [p] rep (S @ W)"
    by (rule rg_skip [OF assms(1)])
  moreover have "replace_g [p] rep (S @ W) = S @ replace_g [p] rep W"
    using Cons.prems by (intro Cons.IH) (simp add: suffix_Cons)
  ultimately show ?case by simp
qed

lemma region_lt:
  assumes "simple_rule (Lit (Lat CHR ''<'' # l) # q) rep" "Lat CHR ''<'' \<notin> set S"
  shows "replace_g [Lit (Lat CHR ''<'' # l) # q] rep (S @ W) =
         S @ replace_g [Lit (Lat CHR ''<'' # l) # q] rep W"
proof (rule rg_region [OF assms(1)])
  fix u assume u: "suffix u S" "u \<noteq> []"
  then obtain c u' where c: "u = c # u'" by (cases u) auto
  with u have "c \<in> set S" by (metis list.set_intros(1) set_mono_suffix subsetD)
  with assms(2) have "c \<noteq> Lat CHR ''<''" by auto
  then show "m_items (Lit (Lat CHR ''<'' # l) # q) 0 (u @ W) = None"
    unfolding c by (simp del: m_items.simps add: m_items_first)
qed

lemma region_free:
  assumes "simple_rule p rep" "list_all (barrier_ok x) p" "Lit l \<in> set p" "\<not> sublist l S"
  shows "replace_g [p] rep (S @ Lat CHR ''<'' # x # W) = S @ replace_g [p] rep (Lat CHR ''<'' # x # W)"
proof (rule rg_region [OF assms(1)])
  fix u assume u: "suffix u S" "u \<noteq> []"
  have "m_items p 0 (u @ Lat CHR ''<'' # x # W) = m_items p 0 u"
    using assms(2) by (rule m_items_barrier)
  moreover have "m_items p 0 u = None"
  proof (rule ccontr)
    assume "m_items p 0 u \<noteq> None"
    then obtain r where "m_items p 0 u = Some r" by blast
    from m_items_lits [OF this assms(3)] have "sublist l u" .
    with u(1) assms(4) show False
      by (meson sublist_order.order_trans suffix_imp_sublist)
  qed
  ultimately show "m_items p 0 (u @ Lat CHR ''<'' # x # W) = None" by simp
qed

lemma take_drop_app:
  "e \<le> length V \<Longrightarrow> take e (V @ B) = take e V \<and> drop e (V @ B) = drop e V @ B"
  by simp

lemma rg_split:
  assumes "simple_rule (Lit (y # l) # q) rep" "list_all (barrier_ok x) (Lit l # q)"
  shows "replace_g [Lit (y # l) # q] rep (X @ Lat CHR ''<'' # x # Z) =
         replace_g [Lit (y # l) # q] rep X @ replace_g [Lit (y # l) # q] rep (Lat CHR ''<'' # x # Z)"
proof (induction "length X" arbitrary: X rule: less_induct)
  case less
  let ?p = "Lit (y # l) # q" and ?B = "Lat CHR ''<'' # x # Z"
  from assms(1) have cf: "\<And>m pre post caps pre' post'.
        expand rep m pre post caps = expand rep m pre' post' caps"
    by (auto simp: simple_rule_def)
  show ?case
  proof (cases X)
    case Nil
    have "replace_g [?p] rep [] = []" by (rule rg_Nil) simp
    with Nil show ?thesis by simp
  next
    case (Cons c X')
    have same: "m_items ?p 0 (c # X' @ ?B) = m_items ?p 0 (c # X')"
      unfolding m_items_first using m_items_barrier [OF assms(2)] by simp
    show ?thesis
    proof (cases "m_items ?p 0 (c # X')")
      case None
      with same have "replace_g [?p] rep (c # X' @ ?B) = c # replace_g [?p] rep (X' @ ?B)"
        "replace_g [?p] rep (c # X') = c # replace_g [?p] rep X'"
        using rg_skip [OF assms(1)] by simp_all
      moreover have "replace_g [?p] rep (X' @ ?B) = replace_g [?p] rep X' @ replace_g [?p] rep ?B"
        using Cons by (intro less) simp
      ultimately show ?thesis using Cons by simp
    next
      case (Some r)
      obtain e caps where r: "r = (e, caps)" by (cases r)
      with Some have m: "m_items ?p 0 (c # X') = Some (e, caps)" by simp
      then have "m_items (Lit l # q) (Suc 0) X' = Some (e, caps)"
        unfolding m_items_first by (simp split: if_splits)
      from m_items_bounds [OF this] have e: "0 < e" "e \<le> length (c # X')" by simp_all
      from m same have m': "m_items ?p 0 ((c # X') @ ?B) = Some (e, caps)" by simp
      have "replace_g [?p] rep ((c # X') @ ?B) =
          expand rep (take e ((c # X') @ ?B)) [] (drop e ((c # X') @ ?B)) caps @
          replace_g [?p] rep (drop e ((c # X') @ ?B))"
        using m' e(1) by (intro rg_hit [OF assms(1)]) simp_all
      moreover have "replace_g [?p] rep (c # X') =
          expand rep (take e (c # X')) [] (drop e (c # X')) caps @
          replace_g [?p] rep (drop e (c # X'))"
        using m e(1) by (intro rg_hit [OF assms(1)]) simp_all
      moreover from e(2) have td: "take e ((c # X') @ ?B) = take e (c # X')"
        "drop e ((c # X') @ ?B) = drop e (c # X') @ ?B"
        using take_drop_app [of e "c # X'" ?B] by blast+
      moreover have "replace_g [?p] rep (drop e (c # X') @ ?B) =
          replace_g [?p] rep (drop e (c # X')) @ replace_g [?p] rep ?B"
        using Cons e(1) by (intro less) simp
      ultimately show ?thesis
        using Cons cf [of "take e (c # X')" "[]" "drop e (c # X') @ ?B" caps "[]" "drop e (c # X')"]
        by simp
    qed
  qed
qed

text \<open>The literal \<open>l\<close> differs from every non-empty suffix of \<open>C\<close> at a position inside
  both: no match of a pattern that starts with \<open>l\<close> starts inside \<open>C\<close>, whatever follows.\<close>

definition diverges :: "jstring \<Rightarrow> jstring \<Rightarrow> bool" where
  "diverges l C = list_all (\<lambda>u. u = [] \<or> (\<not> prefix l u \<and> \<not> prefix u l)) (suffixes C)"

lemma diverges_no_match:
  assumes "diverges l C" "suffix u C" "u \<noteq> []"
  shows "m_items (Lit l # q) 0 (u @ W) = None"
proof -
  from assms have d: "\<not> prefix l u" "\<not> prefix u l"
    by (auto simp: diverges_def list_all_iff in_set_suffixes)
  have "\<not> prefix l (u @ W)"
  proof
    assume "prefix l (u @ W)"
    then have "prefix l u \<or> (\<exists>us. l = u @ us)" by (auto simp: prefix_append)
    with d show False by auto
  qed
  then show ?thesis by simp
qed

lemma region_concrete:
  assumes "simple_rule (Lit l # q) rep" "diverges l C"
  shows "replace_g [Lit l # q] rep (C @ W) = C @ replace_g [Lit l # q] rep W"
  using assms(2) by (intro rg_region [OF assms(1)] diverges_no_match)

text \<open>A rule turns the text \<open>D\<close> into \<open>D'\<close> wherever \<open>D\<close> stands, and treats the text before
  and after it as it would alone.\<close>

definition turns :: "jstring \<Rightarrow> jstring \<Rightarrow> regex \<times> jstring \<Rightarrow> bool" where
  "turns D D' rr \<longleftrightarrow>
     (\<forall>X Y. replace_g (fst rr) (snd rr) (X @ D @ Y) =
        replace_g (fst rr) (snd rr) X @ D' @ replace_g (fst rr) (snd rr) Y)"

lemma turns_local:
  assumes "simple_rule (Lit (y # l) # q) rep" "list_all (barrier_ok x) (Lit l # q)"
    and "\<And>Y. replace_g [Lit (y # l) # q] rep (Lat CHR ''<'' # x # D0 @ Y) =
           D' @ replace_g [Lit (y # l) # q] rep Y"
  shows "turns (Lat CHR ''<'' # x # D0) D' ([Lit (y # l) # q], rep)"
  unfolding turns_def
proof (intro allI)
  fix X Y
  have "replace_g [Lit (y # l) # q] rep (X @ Lat CHR ''<'' # x # (D0 @ Y)) =
        replace_g [Lit (y # l) # q] rep X @ replace_g [Lit (y # l) # q] rep (Lat CHR ''<'' # x # (D0 @ Y))"
    using assms(1,2) by (rule rg_split)
  with assms(3) [of Y]
  show "replace_g (fst ([Lit (y # l) # q], rep)) (snd ([Lit (y # l) # q], rep))
          (X @ (Lat CHR ''<'' # x # D0) @ Y) =
        replace_g (fst ([Lit (y # l) # q], rep)) (snd ([Lit (y # l) # q], rep)) X @ D' @
        replace_g (fst ([Lit (y # l) # q], rep)) (snd ([Lit (y # l) # q], rep)) Y"
    by simp
qed

lemma apply_rules_append: "apply_rules (as @ bs) s = apply_rules bs (apply_rules as s)"
  by (induction as arbitrary: s) auto

lemma apply_rules_stable:
  "list_all (turns D D) rs \<Longrightarrow>
   apply_rules rs (X @ D @ Y) = apply_rules rs X @ D @ apply_rules rs Y"
proof (induction rs arbitrary: X Y)
  case Nil
  then show ?case by simp
next
  case (Cons rr rs)
  obtain r rep where rr: "rr = (r, rep)" by (cases rr)
  from Cons.prems have "turns D D (r, rep)" and rest: "list_all (turns D D) rs"
    by (simp_all add: rr)
  then have "replace_g r rep (X @ D @ Y) = replace_g r rep X @ D @ replace_g r rep Y"
    by (simp add: turns_def)
  with Cons.IH [OF rest] show ?case by (simp add: rr)
qed

lemma apply_rules_chain:
  assumes "list_all (turns D D) as" "turns D D' (r, rep)" "list_all (turns D' D') bs"
  shows "apply_rules (as @ (r, rep) # bs) (X @ D @ Y) =
         apply_rules (as @ (r, rep) # bs) X @ D' @ apply_rules (as @ (r, rep) # bs) Y"
proof -
  have "apply_rules (as @ (r, rep) # bs) (X @ D @ Y) =
        apply_rules bs (replace_g r rep (apply_rules as X @ D @ apply_rules as Y))"
    by (simp add: apply_rules_append apply_rules_stable [OF assms(1)])
  also have "replace_g r rep (apply_rules as X @ D @ apply_rules as Y) =
        replace_g r rep (apply_rules as X) @ D' @ replace_g r rep (apply_rules as Y)"
    using assms(2) by (simp add: turns_def)
  finally show ?thesis
    by (simp add: apply_rules_append apply_rules_stable [OF assms(3)])
qed

text \<open>The pieces of a declaration.\<close>

lemma stable_lt:
  assumes sr: "simple_rule (Lit (Lat CHR ''<'' # l) # q) rep"
    and bar: "list_all (barrier_ok x) (Lit l # q)"
    and a: "diverges (Lat CHR ''<'' # l) (Lat CHR ''<'' # x # C)"
    and b: "diverges (Lat CHR ''<'' # l) B"
    and s: "Lat CHR ''<'' \<notin> set S"
  shows "turns (Lat CHR ''<'' # x # C @ S @ B) (Lat CHR ''<'' # x # C @ S @ B)
           ([Lit (Lat CHR ''<'' # l) # q], rep)"
proof (rule turns_local [OF sr bar])
  fix Y
  let ?r = "replace_g [Lit (Lat CHR ''<'' # l) # q] rep"
  have "?r ((Lat CHR ''<'' # x # C) @ S @ B @ Y) = (Lat CHR ''<'' # x # C) @ ?r (S @ B @ Y)"
    using sr a by (rule region_concrete)
  also have "?r (S @ B @ Y) = S @ ?r (B @ Y)"
    using sr s by (rule region_lt)
  also have "?r (B @ Y) = B @ ?r Y"
    using sr b by (rule region_concrete)
  finally show "?r (Lat CHR ''<'' # x # (C @ S @ B) @ Y) = (Lat CHR ''<'' # x # C @ S @ B) @ ?r Y"
    by simp
qed

lemma stable_free:
  assumes sr: "simple_rule (Lit (y # l) # q) rep"
    and bar: "list_all (barrier_ok x) (Lit l # q)"
    and bar2: "list_all (barrier_ok z) (Lit (y # l) # q)"
    and lit: "Lit l0 \<in> set (Lit (y # l) # q)" "\<not> sublist l0 S"
    and a: "diverges (y # l) (Lat CHR ''<'' # x # C)"
    and b: "diverges (y # l) (Lat CHR ''<'' # z # B)"
  shows "turns (Lat CHR ''<'' # x # C @ S @ Lat CHR ''<'' # z # B) (Lat CHR ''<'' # x # C @ S @ Lat CHR ''<'' # z # B)
           ([Lit (y # l) # q], rep)"
proof (rule turns_local [OF sr bar])
  fix Y
  let ?r = "replace_g [Lit (y # l) # q] rep"
  have 1: "?r (Lat CHR ''<'' # x # C @ S @ Lat CHR ''<'' # z # B @ Y) =
        Lat CHR ''<'' # x # C @ ?r (S @ Lat CHR ''<'' # z # B @ Y)"
    using region_concrete [OF sr a, of "S @ Lat CHR ''<'' # z # B @ Y"] by simp
  have 2: "?r (S @ Lat CHR ''<'' # z # B @ Y) = S @ ?r (Lat CHR ''<'' # z # B @ Y)"
    using sr bar2 lit by (rule region_free)
  have 3: "?r (Lat CHR ''<'' # z # B @ Y) = Lat CHR ''<'' # z # B @ ?r Y"
    using region_concrete [OF sr b, of Y] by simp
  show "?r (Lat CHR ''<'' # x # (C @ S @ Lat CHR ''<'' # z # B) @ Y) =
     (Lat CHR ''<'' # x # C @ S @ Lat CHR ''<'' # z # B) @ ?r Y"
    using 1 2 3 by simp
qed

text \<open>The declaration \<open><artifactId>name-suffix</artifactId>\<close>.\<close>

definition artifact_decl :: "jstring \<Rightarrow> jstring \<Rightarrow> jstring" where
  "artifact_decl name sfx = str ''<artifactId>'' @ name @ str ''-'' @ sfx @ str ''</artifactId>''"

lemma cleanName_zoo: "cleanName (str ''zoo'') = str ''zoo''"
  by code_simp

lemma rules_zoo:
  "structural_rules (str ''zoo'') =
    [([[Lit (str ''com.xiaohongshu.sns.demo'')]], str ''com.xiaohongshu.sns.zoo''),
     ([[Lit (str ''<artifactId>sns-demo-parent</artifactId>'')]], str ''<artifactId>zoo-parent</artifactId>''),
     ([[Lit (str ''<artifactId>sns-demo-''), CapPlus NotLt, Lit (str ''</artifactId>'')]], str ''<artifactId>zoo-$1</artifactId>''),
     ([[Lit (str ''<artifactId>sns-demo</artifactId>'')]], str ''<artifactId>zoo</artifactId>''),
     ([[Lit (str ''<name>sns-demo</name>'')]], str ''<name>zoo</name>''),
     ([[Lit (str ''<name>sns-demo-''), CapPlus NotLt, Lit (str ''</name>'')]], str ''<name>zoo-$1</name>''),
     ([[Lit (str ''<module>sns-demo-''), CapPlus NotLt, Lit (str ''</module>'')]], str ''<module>zoo-$1</module>''),
     ([[Lit (str ''<artifactId>${projectName}-''), CapPlus NotLt, Lit (str ''</artifactId>'')]], str ''<artifactId>zoo-$1</artifactId>''),
     ([[Lit (str ''spring.application.name=sns-demo'')]], str ''spring.application.name=zoo''),
     ([[Lit (str ''spring.application.name:''), Star Space, Lit (str ''sns-demo'')]], str ''spring.application.name: zoo'')]"
  unfolding structural_rules_def cleanName_zoo by simp

lemma absent_pkg:
  assumes "\<not> sublist sns_demo S" "\<not> sublist (str ''com.xiaohongshu.sns.demo'') S"
  shows "\<not> sublist (str ''com.xiaohongshu.sns.demo'') S"
  by (rule assms(2))

lemma absent_spring:
  assumes "\<not> sublist sns_demo S" "\<not> sublist (str ''com.xiaohongshu.sns.demo'') S"
  shows "\<not> sublist (str ''spring.application.name=sns-demo'') S"
  by (rule not_sub_sns [OF assms(1) sns_sub(7)])

lemma absent_sns:
  assumes "\<not> sublist sns_demo S" "\<not> sublist (str ''com.xiaohongshu.sns.demo'') S"
  shows "\<not> sublist (str ''sns-demo'') S"
  using assms(1) by (simp add: sns_demo_def)

lemma simple_r1: "simple_rule [Lit (Lat CHR ''c'' # str ''om.xiaohongshu.sns.demo'')] (str ''com.xiaohongshu.sns.zoo'')"
  by (simp add: simple_rule_def is_digit_def digit_val_def)

lemma simple_r2: "simple_rule [Lit (Lat CHR ''<'' # str ''artifactId>sns-demo-parent</artifactId>'')] (str ''<artifactId>zoo-parent</artifactId>'')"
  by (simp add: simple_rule_def is_digit_def digit_val_def)

lemma simple_r3: "simple_rule [Lit (Lat CHR ''<'' # str ''artifactId>sns-demo-''), CapPlus NotLt, Lit (str ''</artifactId>'')] (str ''<artifactId>zoo-$1</artifactId>'')"
  by (simp add: simple_rule_def is_digit_def digit_val_def)

lemma simple_r4: "simple_rule [Lit (Lat CHR ''<'' # str ''artifactId>sns-demo</artifactId>'')] (str ''<artifactId>zoo</artifactId>'')"
  by (simp add: simple_rule_def is_digit_def digit_val_def)

lemma simple_r5: "simple_rule [Lit (Lat CHR ''<'' # str ''name>sns-demo</name>'')] (str ''<name>zoo</name>'')"
  by (simp add: simple_rule_def is_digit_def digit_val_def)

lemma simple_r6: "simple_rule [Lit (Lat CHR ''<'' # str ''name>sns-demo-''), CapPlus NotLt, Lit (str ''</name>'')] (str ''<name>zoo-$1</name>'')"
  by (simp add: simple_rule_def is_digit_def digit_val_def)

lemma simple_r7: "simple_rule [Lit (Lat CHR ''<'' # str ''module>sns-demo-''), CapPlus NotLt, Lit (str ''</module>'')] (str ''<module>zoo-$1</module>'')"
  by (simp add: simple_rule_def is_digit_def digit_val_def)

lemma simple_r8: "simple_rule [Lit (Lat CHR ''<'' # str ''artifactId>${projectName}-''), CapPlus NotLt, Lit (str ''</artifactId>'')] (str ''<artifactId>zoo-$1</artifactId>'')"
  by (simp add: simple_rule_def is_digit_def digit_val_def)

lemma simple_r9: "simple_rule [Lit (Lat CHR ''s'' # str ''pring.application.name=sns-demo'')] (str ''spring.application.name=zoo'')"
  by (simp add: simple_rule_def is_digit_def digit_val_def)

lemma simple_r10: "simple_rule [Lit (Lat CHR ''s'' # str ''pring.application.name:''), Star Space, Lit (str ''sns-demo'')] (str ''spring.application.name: zoo'')"
  by (simp add: simple_rule_def is_digit_def digit_val_def)

lemma simple_r11: "simple_rule [Lit (Lat CHR ''s'' # str ''ns-demo'')] (str ''zoo'')"
  by (simp add: simple_rule_def is_digit_def digit_val_def)

lemma zoo_stable_r1:
  assumes "Lat CHR ''<'' \<notin> set S" "\<not> sublist sns_demo S"
    "\<not> sublist (str ''com.xiaohongshu.sns.demo'') S"
  shows "turns (artifact_decl (str ''zoo'') S) (artifact_decl (str ''zoo'') S)
           ([[Lit (str ''com.xiaohongshu.sns.demo'')]], str ''com.xiaohongshu.sns.zoo'')"
proof -
  have "turns (Lat CHR ''<'' # Lat CHR ''a'' # str ''rtifactId>zoo-'' @ S @ Lat CHR ''<'' # Lat CHR ''/'' # str ''artifactId>'')
          (Lat CHR ''<'' # Lat CHR ''a'' # str ''rtifactId>zoo-'' @ S @ Lat CHR ''<'' # Lat CHR ''/'' # str ''artifactId>'')
          ([[Lit (Lat CHR ''c'' # str ''om.xiaohongshu.sns.demo'')]], str ''com.xiaohongshu.sns.zoo'')"
  proof (rule stable_free [OF simple_r1])
    show "list_all (barrier_ok (Lat CHR ''a'')) [Lit (str ''om.xiaohongshu.sns.demo'')]" by code_simp
    show "list_all (barrier_ok (Lat CHR ''/'')) [Lit (Lat CHR ''c'' # str ''om.xiaohongshu.sns.demo'')]" by code_simp
    show "Lit (Lat CHR ''c'' # str ''om.xiaohongshu.sns.demo'') \<in> set [Lit (Lat CHR ''c'' # str ''om.xiaohongshu.sns.demo'')]" by simp
    show "\<not> sublist (Lat CHR ''c'' # str ''om.xiaohongshu.sns.demo'') S" using absent_pkg [OF assms(2,3)] by simp
    show "diverges (Lat CHR ''c'' # str ''om.xiaohongshu.sns.demo'') (Lat CHR ''<'' # Lat CHR ''a'' # str ''rtifactId>zoo-'')" by code_simp
    show "diverges (Lat CHR ''c'' # str ''om.xiaohongshu.sns.demo'') (Lat CHR ''<'' # Lat CHR ''/'' # str ''artifactId>'')" by code_simp
  qed
  then show ?thesis by (simp add: artifact_decl_def)
qed

lemma zoo_stable_r2:
  assumes "Lat CHR ''<'' \<notin> set S" "\<not> sublist sns_demo S"
    "\<not> sublist (str ''com.xiaohongshu.sns.demo'') S"
  shows "turns (artifact_decl (str ''zoo'') S) (artifact_decl (str ''zoo'') S)
           ([[Lit (str ''<artifactId>sns-demo-parent</artifactId>'')]], str ''<artifactId>zoo-parent</artifactId>'')"
proof -
  have "turns (Lat CHR ''<'' # Lat CHR ''a'' # str ''rtifactId>zoo-'' @ S @ str ''</artifactId>'') (Lat CHR ''<'' # Lat CHR ''a'' # str ''rtifactId>zoo-'' @ S @ str ''</artifactId>'')
          ([[Lit (Lat CHR ''<'' # str ''artifactId>sns-demo-parent</artifactId>'')]], str ''<artifactId>zoo-parent</artifactId>'')"
  proof (rule stable_lt [OF simple_r2])
    show "list_all (barrier_ok (Lat CHR ''a'')) [Lit (str ''artifactId>sns-demo-parent</artifactId>'')]" by code_simp
    show "diverges (Lat CHR ''<'' # str ''artifactId>sns-demo-parent</artifactId>'') (Lat CHR ''<'' # Lat CHR ''a'' # str ''rtifactId>zoo-'')" by code_simp
    show "diverges (Lat CHR ''<'' # str ''artifactId>sns-demo-parent</artifactId>'') (str ''</artifactId>'')" by code_simp
    show "Lat CHR ''<'' \<notin> set S" by fact
  qed
  then show ?thesis by (simp add: artifact_decl_def)
qed

lemma zoo_stable_r3:
  assumes "Lat CHR ''<'' \<notin> set S" "\<not> sublist sns_demo S"
    "\<not> sublist (str ''com.xiaohongshu.sns.demo'') S"
  shows "turns (artifact_decl (str ''zoo'') S) (artifact_decl (str ''zoo'') S)
           ([[Lit (str ''<artifactId>sns-demo-''), CapPlus NotLt, Lit (str ''</artifactId>'')]], str ''<artifactId>zoo-$1</artifactId>'')"
proof -
  have "turns (Lat CHR ''<'' # Lat CHR ''a'' # str ''rtifactId>zoo-'' @ S @ str ''</artifactId>'') (Lat CHR ''<'' # Lat CHR ''a'' # str ''rtifactId>zoo-'' @ S @ str ''</artifactId>'')
          ([[Lit (Lat CHR ''<'' # str ''artifactId>sns-demo-''), CapPlus NotLt, Lit (str ''</artifactId>'')]], str ''<artifactId>zoo-$1</artifactId>'')"
  proof (rule stable_lt [OF simple_r3])
    show "list_all (barrier_ok (Lat CHR ''a'')) [Lit (str ''artifactId>sns-demo-''), CapPlus NotLt, Lit (str ''</artifactId>'')]" by code_simp
    show "diverges (Lat CHR ''<'' # str ''artifactId>sns-demo-'') (Lat CHR ''<'' # Lat CHR ''a'' # str ''rtifactId>zoo-'')" by code_simp
    show "diverges (Lat CHR ''<'' # str ''artifactId>sns-demo-'') (str ''</artifactId>'')" by code_simp
    show "Lat CHR ''<'' \<notin> set S" by fact
  qed
  then show ?thesis by (simp add: artifact_decl_def)
qed

lemma zoo_stable_r4:
  assumes "Lat CHR ''<'' \<notin> set S" "\<not> sublist sns_demo S"
    "\<not> sublist (str ''com.xiaohongshu.sns.demo'') S"
  shows "turns (artifact_decl (str ''zoo'') S) (artifact_decl (str ''zoo'') S)
           ([[Lit (str ''<artifactId>sns-demo</artifactId>'')]], str ''<artifactId>zoo</artifactId>'')"
proof -
  have "turns (Lat CHR ''<'' # Lat CHR ''a'' # str ''rtifactId>zoo-'' @ S @ str ''</artifactId>'') (Lat CHR ''<'' # Lat CHR ''a'' # str ''rtifactId>zoo-'' @ S @ str ''</artifactId>'')
          ([[Lit (Lat CHR ''<'' # str ''artifactId>sns-demo</artifactId>'')]], str ''<artifactId>zoo</artifactId>'')"
  proof (rule stable_lt [OF simple_r4])
    show "list_all (barrier_ok (Lat CHR ''a'')) [Lit (str ''artifactId>sns-demo</artifactId>'')]" by code_simp
    show "diverges (Lat CHR ''<'' # str ''artifactId>sns-demo</artifactId>'') (Lat CHR ''<'' # Lat CHR ''a'' # str ''rtifactId>zoo-'')" by code_simp
    show "diverges (Lat CHR ''<'' # str ''artifactId>sns-demo</artifactId>'') (str ''</artifactId>'')" by code_simp
    show "Lat CHR ''<'' \<notin> set S" by fact
  qed
  then show ?thesis by (simp add: artifact_decl_def)
qed

lemma zoo_stable_r5:
  assumes "Lat CHR ''<'' \<notin> set S" "\<not> sublist sns_demo S"
    "\<not> sublist (str ''com.xiaohongshu.sns.demo'') S"
  shows "turns (artifact_decl (str ''zoo'') S) (artifact_decl (str ''zoo'') S)
           ([[Lit (str ''<name>sns-demo</name>'')]], str ''<name>zoo</name>'')"
proof -
  have "turns (Lat CHR ''<'' # Lat CHR ''a'' # str ''rtifactId>zoo-'' @ S @ str ''</artifactId>'') (Lat CHR ''<'' # Lat CHR ''a'' # str ''rtifactId>zoo-'' @ S @ str ''</artifactId>'')
          ([[Lit (Lat CHR ''<'' # str ''name>sns-demo</name>'')]], str ''<name>zoo</name>'')"
  proof (rule stable_lt [OF simple_r5])
    show "list_all (barrier_ok (Lat CHR ''a'')) [Lit (str ''name>sns-demo</name>'')]" by code_simp
    show "diverges (Lat CHR ''<'' # str ''name>sns-demo</name>'') (Lat CHR ''<'' # Lat CHR ''a'' # str ''rtifactId>zoo-'')" by code_simp
    show "diverges (Lat CHR ''<'' # str ''name>sns-demo</name>'') (str ''</artifactId>'')" by code_simp
    show "Lat CHR ''<'' \<notin> set S" by fact
  qed
  then show ?thesis by (simp add: artifact_decl_def)
qed

lemma zoo_stable_r6:
  assumes "Lat CHR ''<'' \<notin> set S" "\<not> sublist sns_demo S"
    "\<not> sublist (str ''com.xiaohongshu.sns.demo'') S"
  shows "turns (artifact_decl (str ''zoo'') S) (artifact_decl (str ''zoo'') S)
           ([[Lit (str ''<name>sns-demo-''), CapPlus NotLt, Lit (str ''</name>'')]], str ''<name>zoo-$1</name>'')"
proof -
  have "turns (Lat CHR ''<'' # Lat CHR ''a'' # str ''rtifactId>zoo-'' @ S @ str ''</artifactId>'') (Lat CHR ''<'' # Lat CHR ''a'' # str ''rtifactId>zoo-'' @ S @ str ''</artifactId>'')
          ([[Lit (Lat CHR ''<'' # str ''name>sns-demo-''), CapPlus NotLt, Lit (str ''</name>'')]], str ''<name>zoo-$1</name>'')"
  proof (rule stable_lt [OF simple_r6])
    show "list_all (barrier_ok (Lat CHR ''a'')) [Lit (str ''name>sns-demo-''), CapPlus NotLt, Lit (str ''</name>'')]" by code_simp
    show "diverges (Lat CHR ''<'' # str ''name>sns-demo-'') (Lat CHR ''<'' # Lat CHR ''a'' # str ''rtifactId>zoo-'')" by code_simp
    show "diverges (Lat CHR ''<'' # str ''name>sns-demo-'') (str ''</artifactId>'')" by code_simp
    show "Lat CHR ''<'' \<notin> set S" by fact
  qed
  then show ?thesis by (simp add: artifact_decl_def)
qed

lemma zoo_stable_r7:
  assumes "Lat CHR ''<'' \<notin> set S" "\<not> sublist sns_demo S"
    "\<not> sublist (str ''com.xiaohongshu.sns.demo'') S"
  shows "turns (artifact_decl (str ''zoo'') S) (artifact_decl (str ''zoo'') S)
           ([[Lit (str ''<module>sns-demo-''), CapPlus NotLt, Lit (str ''</module>'')]], str ''<module>zoo-$1</module>'')"
proof -
  have "turns (Lat CHR ''<'' # Lat CHR ''a'' # str ''rtifactId>zoo-'' @ S @ str ''</artifactId>'') (Lat CHR ''<'' # Lat CHR ''a'' # str ''rtifactId>zoo-'' @ S @ str ''</artifactId>'')
          ([[Lit (Lat CHR ''<'' # str ''module>sns-demo-''), CapPlus NotLt, Lit (str ''</module>'')]], str ''<module>zoo-$1</module>'')"
  proof (rule stable_lt [OF simple_r7])
    show "list_all (barrier_ok (Lat CHR ''a'')) [Lit (str ''module>sns-demo-''), CapPlus NotLt, Lit (str ''</module>'')]" by code_simp
    show "diverges (Lat CHR ''<'' # str ''module>sns-demo-'') (Lat CHR ''<'' # Lat CHR ''a'' # str ''rtifactId>zoo-'')" by code_simp
    show "diverges (Lat CHR ''<'' # str ''module>sns-demo-'') (str ''</artifactId>'')" by code_simp
    show "Lat CHR ''<'' \<notin> set S" by fact
  qed
  then show ?thesis by (simp add: artifact_decl_def)
qed

lemma zoo_stable_r8:
  assumes "Lat CHR ''<'' \<notin> set S" "\<not> sublist sns_demo S"
    "\<not> sublist (str ''com.xiaohongshu.sns.demo'') S"
  shows "turns (artifact_decl (str ''zoo'') S) (artifact_decl (str ''zoo'') S)
           ([[Lit (str ''<artifactId>${projectName}-''), CapPlus NotLt, Lit (str ''</artifactId>'')]], str ''<artifactId>zoo-$1</artifactId>'')"
proof -
  have "turns (Lat CHR ''<'' # Lat CHR ''a'' # str ''rtifactId>zoo-'' @ S @ str ''</artifactId>'') (Lat CHR ''<'' # Lat CHR ''a'' # str ''rtifactId>zoo-'' @ S @ str ''</artifactId>'')
          ([[Lit (Lat CHR ''<'' # str ''artifactId>${projectName}-''), CapPlus NotLt, Lit (str ''</artifactId>'')]], str ''<artifactId>zoo-$1</artifactId>'')"
  proof (rule stable_lt [OF simple_r8])
    show "list_all (barrier_ok (Lat CHR ''a'')) [Lit (str ''artifactId>${projectName}-''), CapPlus NotLt, Lit (str ''</artifactId>'')]" by code_simp
    show "diverges (Lat CHR ''<'' # str ''artifactId>${projectName}-'') (Lat CHR ''<'' # Lat CHR ''a'' # str ''rtifactId>zoo-'')" by code_simp
    show "diverges (Lat CHR ''<'' # str ''artifactId>${projectName}-'') (str ''</artifactId>'')" by code_simp
    show "Lat CHR ''<'' \<notin> set S" by fact
  qed
  then show ?thesis by (simp add: artifact_decl_def)
qed

lemma zoo_stable_r9:
  assumes "Lat CHR ''<'' \<notin> set S" "\<not> sublist sns_demo S"
    "\<not> sublist (str ''com.xiaohongshu.sns.demo'') S"
  shows "turns (artifact_decl (str ''zoo'') S) (artifact_decl (str ''zoo'') S)
           ([[Lit (str ''spring.application.name=sns-demo'')]], str ''spring.application.name=zoo'')"
proof -
  have "turns (Lat CHR ''<'' # Lat CHR ''a'' # str ''rtifactId>zoo-'' @ S @ Lat CHR ''<'' # Lat CHR ''/'' # str ''artifactId>'')
          (Lat CHR ''<'' # Lat CHR ''a'' # str ''rtifactId>zoo-'' @ S @ Lat CHR ''<'' # Lat CHR ''/'' # str ''artifactId>'')
          ([[Lit (Lat CHR ''s'' # str ''pring.application.name=sns-demo'')]], str ''spring.application.name=zoo'')"
  proof (rule stable_free [OF simple_r9])
    show "list_all (barrier_ok (Lat CHR ''a'')) [Lit (str ''pring.application.name=sns-demo'')]" by code_simp
    show "list_all (barrier_ok (Lat CHR ''/'')) [Lit (Lat CHR ''s'' # str ''pring.application.name=sns-demo'')]" by code_simp
    show "Lit (Lat CHR ''s'' # str ''pring.application.name=sns-demo'') \<in> set [Lit (Lat CHR ''s'' # str ''pring.application.name=sns-demo'')]" by simp
    show "\<not> sublist (Lat CHR ''s'' # str ''pring.application.name=sns-demo'') S" using absent_spring [OF assms(2,3)] by simp
    show "diverges (Lat CHR ''s'' # str ''pring.application.name=sns-demo'') (Lat CHR ''<'' # Lat CHR ''a'' # str ''rtifactId>zoo-'')" by code_simp
    show "diverges (Lat CHR ''s'' # str ''pring.application.name=sns-demo'') (Lat CHR ''<'' # Lat CHR ''/'' # str ''artifactId>'')" by code_simp
  qed
  then show ?thesis by (simp add: artifact_decl_def)
qed

lemma zoo_stable_r10:
  assumes "Lat CHR ''<'' \<notin> set S" "\<not> sublist sns_demo S"
    "\<not> sublist (str ''com.xiaohongshu.sns.demo'') S"
  shows "turns (artifact_decl (str ''zoo'') S) (artifact_decl (str ''zoo'') S)
           ([[Lit (str ''spring.application.name:''), Star Space, Lit (str ''sns-demo'')]], str ''spring.application.name: zoo'')"
proof -
  have "turns (Lat CHR ''<'' # Lat CHR ''a'' # str ''rtifactId>zoo-'' @ S @ Lat CHR ''<'' # Lat CHR ''/'' # str ''artifactId>'')
          (Lat CHR ''<'' # Lat CHR ''a'' # str ''rtifactId>zoo-'' @ S @ Lat CHR ''<'' # Lat CHR ''/'' # str ''artifactId>'')
          ([[Lit (Lat CHR ''s'' # str ''pring.application.name:''), Star Space, Lit (str ''sns-demo'')]], str ''spring.application.name: zoo'')"
  proof (rule stable_free [OF simple_r10])
    show "list_all (barrier_ok (Lat CHR ''a'')) [Lit (str ''pring.application.name:''), Star Space, Lit (str ''sns-demo'')]" by code_simp
    show "list_all (barrier_ok (Lat CHR ''/'')) [Lit (Lat CHR ''s'' # str ''pring.application.name:''), Star Space, Lit (str ''sns-demo'')]" by code_simp
    show "Lit (str ''sns-demo'') \<in> set [Lit (Lat CHR ''s'' # str ''pring.application.name:''), Star Space, Lit (str ''sns-demo'')]" by simp
    show "\<not> sublist (str ''sns-demo'') S" using absent_sns [OF assms(2,3)] by simp
    show "diverges (Lat CHR ''s'' # str ''pring.application.name:'') (Lat CHR ''<'' # Lat CHR ''a'' # str ''rtifactId>zoo-'')" by code_simp
    show "diverges (Lat CHR ''s'' # str ''pring.application.name:'') (Lat CHR ''<'' # Lat CHR ''/'' # str ''artifactId>'')" by code_simp
  qed
  then show ?thesis by (simp add: artifact_decl_def)
qed

lemma zoo_stable_r11:
  assumes "Lat CHR ''<'' \<notin> set S" "\<not> sublist sns_demo S"
    "\<not> sublist (str ''com.xiaohongshu.sns.demo'') S"
  shows "turns (artifact_decl (str ''zoo'') S) (artifact_decl (str ''zoo'') S)
           ([[Lit (str ''sns-demo'')]], str ''zoo'')"
proof -
  have "turns (Lat CHR ''<'' # Lat CHR ''a'' # str ''rtifactId>zoo-'' @ S @ Lat CHR ''<'' # Lat CHR ''/'' # str ''artifactId>'')
          (Lat CHR ''<'' # Lat CHR ''a'' # str ''rtifactId>zoo-'' @ S @ Lat CHR ''<'' # Lat CHR ''/'' # str ''artifactId>'')
          ([[Lit (Lat CHR ''s'' # str ''ns-demo'')]], str ''zoo'')"
  proof (rule stable_free [OF simple_r11])
    show "list_all (barrier_ok (Lat CHR ''a'')) [Lit (str ''ns-demo'')]" by code_simp
    show "list_all (barrier_ok (Lat CHR ''/'')) [Lit (Lat CHR ''s'' # str ''ns-demo'')]" by code_simp
    show "Lit (Lat CHR ''s'' # str ''ns-demo'') \<in> set [Lit (Lat CHR ''s'' # str ''ns-demo'')]" by simp
    show "\<not> sublist (Lat CHR ''s'' # str ''ns-demo'') S" using absent_sns [OF assms(2,3)] by simp
    show "diverges (Lat CHR ''s'' # str ''ns-demo'') (Lat CHR ''<'' # Lat CHR ''a'' # str ''rtifactId>zoo-'')" by code_simp
    show "diverges (Lat CHR ''s'' # str ''ns-demo'') (Lat CHR ''<'' # Lat CHR ''/'' # str ''artifactId>'')" by code_simp
  qed
  then show ?thesis by (simp add: artifact_decl_def)
qed

lemma demo_stable_r1:
  assumes "Lat CHR ''<'' \<notin> set S" "\<not> sublist sns_demo S"
    "\<not> sublist (str ''com.xiaohongshu.sns.demo'') S"
  shows "turns (artifact_decl (str ''sns-demo'') S) (artifact_decl (str ''sns-demo'') S)
           ([[Lit (str ''com.xiaohongshu.sns.demo'')]], str ''com.xiaohongshu.sns.zoo'')"
proof -
  have "turns (Lat CHR ''<'' # Lat CHR ''a'' # str ''rtifactId>sns-demo-'' @ S @ Lat CHR ''<'' # Lat CHR ''/'' # str ''artifactId>'')
          (Lat CHR ''<'' # Lat CHR ''a'' # str ''rtifactId>sns-demo-'' @ S @ Lat CHR ''<'' # Lat CHR ''/'' # str ''artifactId>'')
          ([[Lit (Lat CHR ''c'' # str ''om.xiaohongshu.sns.demo'')]], str ''com.xiaohongshu.sns.zoo'')"
  proof (rule stable_free [OF simple_r1])
    show "list_all (barrier_ok (Lat CHR ''a'')) [Lit (str ''om.xiaohongshu.sns.demo'')]" by code_simp
    show "list_all (barrier_ok (Lat CHR ''/'')) [Lit (Lat CHR ''c'' # str ''om.xiaohongshu.sns.demo'')]" by code_simp
    show "Lit (Lat CHR ''c'' # str ''om.xiaohongshu.sns.demo'') \<in> set [Lit (Lat CHR ''c'' # str ''om.xiaohongshu.sns.demo'')]" by simp
    show "\<not> sublist (Lat CHR ''c'' # str ''om.xiaohongshu.sns.demo'') S" using absent_pkg [OF assms(2,3)] by simp
    show "diverges (Lat CHR ''c'' # str ''om.xiaohongshu.sns.demo'') (Lat CHR ''<'' # Lat CHR ''a'' # str ''rtifactId>sns-demo-'')" by code_simp
    show "diverges (Lat CHR ''c'' # str ''om.xiaohongshu.sns.demo'') (Lat CHR ''<'' # Lat CHR ''/'' # str ''artifactId>'')" by code_simp
  qed
  then show ?thesis by (simp add: artifact_decl_def)
qed

lemma try_down_top: "lo \<le> n \<Longrightarrow> f n = Some r \<Longrightarrow> try_down f lo n = Some r"
  by (cases n) auto

lemma takeWhile_run: "list_all P S \<Longrightarrow> \<not> P z \<Longrightarrow> takeWhile P (S @ z # W) = S"
  by (induction S) auto

lemma capplus_hit:
  assumes "S \<noteq> []" "list_all (in_cls c) S" "\<not> in_cls c z"
    and "m_items q (pos + length S) (z # W) = Some (e, caps)"
  shows "m_items (CapPlus c # q) pos (S @ z # W) = Some (e, S # caps)"
proof -
  have tw: "takeWhile (in_cls c) (S @ z # W) = S"
    using assms(2,3) by (rule takeWhile_run)
  have "1 \<le> length S" using assms(1) by (cases S) auto
  moreover have "map_option (\<lambda>(e, caps). (e, take (length S) (S @ z # W) # caps))
          (m_items q (pos + length S) (drop (length S) (S @ z # W))) = Some (e, S # caps)"
    using assms(4) by simp
  ultimately show ?thesis
    unfolding m_items.simps tw by (rule try_down_top)
qed

lemma lt_free: "Lat CHR ''<'' \<notin> set S \<Longrightarrow> list_all (in_cls NotLt) S"
  by (auto simp: list_all_iff)

lemma lit_step: "m_items (Lit l # q) pos (l @ s) = m_items q (pos + length l) s"
  by simp

lemma simple_r2u:
  "simple_rule [Lit (str ''<artifactId>sns-demo-parent</artifactId>'')]
     (str ''<artifactId>zoo-parent</artifactId>'')"
  using simple_r2 by simp

lemma simple_r3u:
  "simple_rule [Lit (str ''<artifactId>sns-demo-''), CapPlus NotLt, Lit (str ''</artifactId>'')]
     (str ''<artifactId>zoo-$1</artifactId>'')"
  using simple_r3 by simp

lemma r3_match:
  assumes "S \<noteq> []" "Lat CHR ''<'' \<notin> set S"
  shows "m_items [Lit (str ''<artifactId>sns-demo-''), CapPlus NotLt, Lit (str ''</artifactId>'')] 0
           (artifact_decl (str ''sns-demo'') S @ Y) =
         Some (length (artifact_decl (str ''sns-demo'') S), [S])"
proof -
  let ?A = "str ''<artifactId>sns-demo-''" and ?B = "str ''</artifactId>''"
  have d: "artifact_decl (str ''sns-demo'') S @ Y = ?A @ S @ Lat CHR ''<'' # (str ''/artifactId>'' @ Y)"
    by (simp add: artifact_decl_def)
  have len: "length (artifact_decl (str ''sns-demo'') S) = 34 + length S"
    by (simp add: artifact_decl_def)
  have b: "m_items [Lit ?B] (0 + length ?A + length S) (Lat CHR ''<'' # (str ''/artifactId>'' @ Y)) =
      Some (34 + length S, [])"
    by simp
  have nl: "\<not> in_cls NotLt (Lat CHR ''<'')" by simp
  have c: "m_items [CapPlus NotLt, Lit ?B] (0 + length ?A) (S @ Lat CHR ''<'' # (str ''/artifactId>'' @ Y)) =
      Some (34 + length S, [S])"
    using assms(1) lt_free [OF assms(2)] nl b by (rule capplus_hit)
  have "m_items [Lit ?A, CapPlus NotLt, Lit ?B] 0 (?A @ S @ Lat CHR ''<'' # (str ''/artifactId>'' @ Y)) =
      Some (34 + length S, [S])"
    unfolding lit_step by (rule c)
  then show ?thesis unfolding d len .
qed

lemma r3_turns:
  assumes "S \<noteq> []" "Lat CHR ''<'' \<notin> set S"
  shows "turns (artifact_decl (str ''sns-demo'') S) (artifact_decl (str ''zoo'') S)
    ([[Lit (str ''<artifactId>sns-demo-''), CapPlus NotLt, Lit (str ''</artifactId>'')]],
     str ''<artifactId>zoo-$1</artifactId>'')"
proof -
  let ?p = "[Lit (str ''<artifactId>sns-demo-''), CapPlus NotLt, Lit (str ''</artifactId>'')]"
  let ?ps = "[Lit (Lat CHR ''<'' # str ''artifactId>sns-demo-''), CapPlus NotLt,
              Lit (str ''</artifactId>'')]"
  let ?rep = "str ''<artifactId>zoo-$1</artifactId>''"
  let ?D = "artifact_decl (str ''sns-demo'') S"
  have ex: "expand ?rep m pre post [S] = artifact_decl (str ''zoo'') S" for m pre post
    by (simp add: artifact_decl_def is_digit_def digit_val_def)
  have loc: "replace_g [?p] ?rep (?D @ Y) = artifact_decl (str ''zoo'') S @ replace_g [?p] ?rep Y" for Y
  proof -
    have pos: "0 < length ?D" "?D @ Y \<noteq> []" by (simp_all add: artifact_decl_def)
    from rg_hit [OF simple_r3u r3_match [OF assms, of Y] pos]
    have "replace_g [?p] ?rep (?D @ Y) = expand ?rep ?D [] Y [S] @ replace_g [?p] ?rep Y"
      by (simp del: expand.simps)
    then show ?thesis unfolding ex .
  qed
  have "turns (Lat CHR ''<'' # Lat CHR ''a'' # str ''rtifactId>sns-demo-'' @ S @ str ''</artifactId>'')
     (artifact_decl (str ''zoo'') S) ([?ps], ?rep)"
  proof (rule turns_local [OF simple_r3])
    show "list_all (barrier_ok (Lat CHR ''a'')) [Lit (str ''artifactId>sns-demo-''), CapPlus NotLt, Lit (str ''</artifactId>'')]"
      by code_simp
    fix Y
    show "replace_g [?ps] ?rep (Lat CHR ''<'' # Lat CHR ''a'' # (str ''rtifactId>sns-demo-'' @ S @ str ''</artifactId>'') @ Y)
        = artifact_decl (str ''zoo'') S @ replace_g [?ps] ?rep Y"
      using loc [of Y] by (simp add: artifact_decl_def)
  qed
  then show ?thesis by (simp add: artifact_decl_def)
qed

lemma prefix_lt_eq:
  assumes "Lat CHR ''<'' \<notin> set P" "Lat CHR ''<'' \<notin> set S"
    and "prefix (P @ Lat CHR ''<'' # r1) (S @ Lat CHR ''<'' # r2)"
  shows "S = P"
proof -
  from assms(3) obtain zs where "S @ Lat CHR ''<'' # r2 = P @ Lat CHR ''<'' # (r1 @ zs)"
    by (auto simp: prefix_def)
  then have "takeWhile (\<lambda>c. c \<noteq> Lat CHR ''<'') (S @ Lat CHR ''<'' # r2) =
             takeWhile (\<lambda>c. c \<noteq> Lat CHR ''<'') (P @ Lat CHR ''<'' # (r1 @ zs))"
    by simp
  moreover have "takeWhile (\<lambda>c. c \<noteq> Lat CHR ''<'') (S @ Lat CHR ''<'' # r2) = S"
    using assms(2) by (intro takeWhile_run) (auto simp: list_all_iff)
  moreover have "takeWhile (\<lambda>c. c \<noteq> Lat CHR ''<'') (P @ Lat CHR ''<'' # (r1 @ zs)) = P"
    using assms(1) by (intro takeWhile_run) (auto simp: list_all_iff)
  ultimately show ?thesis by simp
qed

lemma r2_turns_parent:
  "turns (artifact_decl (str ''sns-demo'') (str ''parent'')) (artifact_decl (str ''zoo'') (str ''parent''))
    ([[Lit (str ''<artifactId>sns-demo-parent</artifactId>'')]], str ''<artifactId>zoo-parent</artifactId>'')"
proof -
  let ?l = "str ''<artifactId>sns-demo-parent</artifactId>''"
  let ?ls = "Lat CHR ''<'' # str ''artifactId>sns-demo-parent</artifactId>''"
  let ?rep = "str ''<artifactId>zoo-parent</artifactId>''"
  have loc: "replace_g [[Lit ?l]] ?rep (?l @ Y) = ?rep @ replace_g [[Lit ?l]] ?rep Y" for Y
  proof -
    have "m_items [Lit ?l] 0 (?l @ Y) = Some (length ?l, [])" by simp
    then have "replace_g [[Lit ?l]] ?rep (?l @ Y) =
        expand ?rep (take (length ?l) (?l @ Y)) [] (drop (length ?l) (?l @ Y)) [] @
        replace_g [[Lit ?l]] ?rep (drop (length ?l) (?l @ Y))"
      by (intro rg_hit [OF simple_r2u]) simp_all
    then show ?thesis by simp
  qed
  have "turns (Lat CHR ''<'' # Lat CHR ''a'' # str ''rtifactId>sns-demo-parent</artifactId>'')
     (artifact_decl (str ''zoo'') (str ''parent'')) ([[Lit ?ls]], ?rep)"
  proof (rule turns_local [OF simple_r2])
    show "list_all (barrier_ok (Lat CHR ''a'')) [Lit (str ''artifactId>sns-demo-parent</artifactId>'')]"
      by code_simp
    fix Y
    show "replace_g [[Lit ?ls]] ?rep (Lat CHR ''<'' # Lat CHR ''a'' # str ''rtifactId>sns-demo-parent</artifactId>'' @ Y)
        = artifact_decl (str ''zoo'') (str ''parent'') @ replace_g [[Lit ?ls]] ?rep Y"
      using loc [of Y] by (simp add: artifact_decl_def)
  qed
  then show ?thesis by (simp add: artifact_decl_def)
qed

lemma r2_turns_other:
  assumes "Lat CHR ''<'' \<notin> set S" "S \<noteq> str ''parent''"
  shows "turns (artifact_decl (str ''sns-demo'') S) (artifact_decl (str ''sns-demo'') S)
    ([[Lit (str ''<artifactId>sns-demo-parent</artifactId>'')]], str ''<artifactId>zoo-parent</artifactId>'')"
proof -
  let ?l = "str ''<artifactId>sns-demo-parent</artifactId>''"
  let ?ls = "Lat CHR ''<'' # str ''artifactId>sns-demo-parent</artifactId>''"
  let ?rep = "str ''<artifactId>zoo-parent</artifactId>''"
  let ?r = "replace_g [[Lit ?l]] ?rep"
  let ?rs = "replace_g [[Lit ?ls]] ?rep"
  have loc: "?r (Lat CHR ''<'' # str ''artifactId>sns-demo-'' @ S @ str ''</artifactId>'' @ Y) =
     Lat CHR ''<'' # str ''artifactId>sns-demo-'' @ S @ str ''</artifactId>'' @ ?r Y" for Y
  proof -
    have "\<not> prefix (str ''parent</artifactId>'') (S @ str ''</artifactId>'' @ Y)"
    proof
      assume "prefix (str ''parent</artifactId>'') (S @ str ''</artifactId>'' @ Y)"
      then have "prefix (str ''parent'' @ Lat CHR ''<'' # str ''/artifactId>'') (S @ Lat CHR ''<'' # (str ''/artifactId>'' @ Y))"
        by simp
      then have "S = str ''parent''" using assms(1) by (intro prefix_lt_eq) simp_all
      with assms(2) show False by contradiction
    qed
    then have "m_items [Lit ?l] 0 (Lat CHR ''<'' # str ''artifactId>sns-demo-'' @ S @ str ''</artifactId>'' @ Y) = None"
      by simp
    then have 0: "?r (Lat CHR ''<'' # str ''artifactId>sns-demo-'' @ S @ str ''</artifactId>'' @ Y) =
        Lat CHR ''<'' # ?r (str ''artifactId>sns-demo-'' @ S @ str ''</artifactId>'' @ Y)"
      by (rule rg_skip [OF simple_r2u])
    have "diverges ?l (str ''artifactId>sns-demo-'')" by code_simp
    from region_concrete [OF simple_r2u this]
    have 1: "?r (str ''artifactId>sns-demo-'' @ S @ str ''</artifactId>'' @ Y) =
        str ''artifactId>sns-demo-'' @ ?r (S @ str ''</artifactId>'' @ Y)" .
    have 2: "?r (S @ str ''</artifactId>'' @ Y) = S @ ?r (str ''</artifactId>'' @ Y)"
      using region_lt [OF simple_r2 assms(1), of "str ''</artifactId>'' @ Y"] by simp
    have "diverges ?l (str ''</artifactId>'')" by code_simp
    from region_concrete [OF simple_r2u this]
    have 3: "?r (str ''</artifactId>'' @ Y) = str ''</artifactId>'' @ ?r Y" .
    show ?thesis unfolding 0 1 2 3 by simp
  qed
  have "turns (Lat CHR ''<'' # Lat CHR ''a'' # str ''rtifactId>sns-demo-'' @ S @ str ''</artifactId>'')
     (Lat CHR ''<'' # Lat CHR ''a'' # str ''rtifactId>sns-demo-'' @ S @ str ''</artifactId>'') ([[Lit ?ls]], ?rep)"
  proof (rule turns_local [OF simple_r2])
    show "list_all (barrier_ok (Lat CHR ''a'')) [Lit (str ''artifactId>sns-demo-parent</artifactId>'')]"
      by code_simp
    fix Y
    show "?rs (Lat CHR ''<'' # Lat CHR ''a'' # (str ''rtifactId>sns-demo-'' @ S @ str ''</artifactId>'') @ Y)
        = (Lat CHR ''<'' # Lat CHR ''a'' # str ''rtifactId>sns-demo-'' @ S @ str ''</artifactId>'') @ ?rs Y"
      using loc [of Y] by simp
  qed
  then show ?thesis by (simp add: artifact_decl_def)
qed

lemma structural_rules_decl:
  assumes "S \<noteq> []" "Lat CHR ''<'' \<notin> set S" "\<not> sublist sns_demo S"
    "\<not> sublist (str ''com.xiaohongshu.sns.demo'') S"
  shows "apply_rules (structural_rules (str ''zoo'')) (X @ artifact_decl (str ''sns-demo'') S @ Y) =
         apply_rules (structural_rules (str ''zoo'')) X @ artifact_decl (str ''zoo'') S @
         apply_rules (structural_rules (str ''zoo'')) Y"
proof -
  note st = assms(2-4)
  note z = zoo_stable_r3 [OF st] zoo_stable_r4 [OF st] zoo_stable_r5 [OF st] zoo_stable_r6 [OF st]
    zoo_stable_r7 [OF st] zoo_stable_r8 [OF st] zoo_stable_r9 [OF st] zoo_stable_r10 [OF st]
  show ?thesis
  proof (cases "S = str ''parent''")
    case True
    have a: "list_all (turns (artifact_decl (str ''sns-demo'') S) (artifact_decl (str ''sns-demo'') S))
        [([[Lit (str ''com.xiaohongshu.sns.demo'')]], str ''com.xiaohongshu.sns.zoo'')]"
      using demo_stable_r1 [OF st] by simp
    have b: "turns (artifact_decl (str ''sns-demo'') S) (artifact_decl (str ''zoo'') S)
        ([[Lit (str ''<artifactId>sns-demo-parent</artifactId>'')]], str ''<artifactId>zoo-parent</artifactId>'')"
      using r2_turns_parent True by simp
    have c: "list_all (turns (artifact_decl (str ''zoo'') S) (artifact_decl (str ''zoo'') S))
       (drop 2 (structural_rules (str ''zoo'')))"
      unfolding rules_zoo using z by simp
    have "structural_rules (str ''zoo'') =
       [([[Lit (str ''com.xiaohongshu.sns.demo'')]], str ''com.xiaohongshu.sns.zoo'')] @
       ([[Lit (str ''<artifactId>sns-demo-parent</artifactId>'')]], str ''<artifactId>zoo-parent</artifactId>'') #
       drop 2 (structural_rules (str ''zoo''))"
      unfolding rules_zoo by simp
    then show ?thesis using apply_rules_chain [OF a b c, of X Y] by simp
  next
    case False
    have a: "list_all (turns (artifact_decl (str ''sns-demo'') S) (artifact_decl (str ''sns-demo'') S))
        [([[Lit (str ''com.xiaohongshu.sns.demo'')]], str ''com.xiaohongshu.sns.zoo''),
         ([[Lit (str ''<artifactId>sns-demo-parent</artifactId>'')]], str ''<artifactId>zoo-parent</artifactId>'')]"
      using demo_stable_r1 [OF st] r2_turns_other [OF assms(2) False] by simp
    have b: "turns (artifact_decl (str ''sns-demo'') S) (artifact_decl (str ''zoo'') S)
        ([[Lit (str ''<artifactId>sns-demo-''), CapPlus NotLt, Lit (str ''</artifactId>'')]],
         (str ''<artifactId>zoo-$1</artifactId>''))"
      using assms(1,2) by (rule r3_turns)
    have c: "list_all (turns (artifact_decl (str ''zoo'') S) (artifact_decl (str ''zoo'') S))
       (drop 3 (structural_rules (str ''zoo'')))"
      unfolding rules_zoo using z by simp
    have "structural_rules (str ''zoo'') =
       [([[Lit (str ''com.xiaohongshu.sns.demo'')]], str ''com.xiaohongshu.sns.zoo''),
        ([[Lit (str ''<artifactId>sns-demo-parent</artifactId>'')]], str ''<artifactId>zoo-parent</artifactId>'')] @
       ([[Lit (str ''<artifactId>sns-demo-''), CapPlus NotLt, Lit (str ''</artifactId>'')]],
         (str ''<artifactId>zoo-$1</artifactId>'')) #
       drop 3 (structural_rules (str ''zoo''))"
      unfolding rules_zoo by simp
    then show ?thesis using apply_rules_chain [OF a b c, of X Y] by simp
  qed
qed

text \<open>
  Claim C3, as amended. Take a content string that contains the declaration
  \<open><artifactId>sns-demo-S</artifactId>\<close> of the fixed placeholder \<open>sns-demo\<close> with a
  suffix \<open>S\<close> (not empty, without \<open><\<close>, and containing neither \<open>sns-demo\<close> nor
  \<open>com.xiaohongshu.sns.demo\<close>), and the target name \<open>zoo\<close>. The structural rules alone,
  before the catch-all has run, turn the declaration into \<open><artifactId>zoo-S</artifactId>\<close>,
  the suffix kept, and treat the text before it and the text after it as they would treat
  them alone. The rewriter is the catch-all applied to what the structural rules return, and
  the catch-all leaves the declaration as the structural rules wrote it. So the rewriter
  turns the declaration into \<open><artifactId>zoo-S</artifactId>\<close> and rewrites the text before
  it and the text after it as it would rewrite them alone.
\<close>

theorem structural_declaration_rewritten:
  assumes "S \<noteq> []" "Lat CHR ''<'' \<notin> set S" "\<not> sublist sns_demo S"
    "\<not> sublist (str ''com.xiaohongshu.sns.demo'') S"
  shows "apply_rules (structural_rules (str ''zoo'')) (X @ artifact_decl (str ''sns-demo'') S @ Y) =
           apply_rules (structural_rules (str ''zoo'')) X @ artifact_decl (str ''zoo'') S @
           apply_rules (structural_rules (str ''zoo'')) Y \<and>
         replaceProjectNames content oldName (str ''zoo'') =
           replace_sns_demo (str ''zoo'') (apply_rules (structural_rules (str ''zoo'')) content) \<and>
         replace_sns_demo (str ''zoo'') (X' @ artifact_decl (str ''zoo'') S @ Y') =
           replace_sns_demo (str ''zoo'') X' @ artifact_decl (str ''zoo'') S @
           replace_sns_demo (str ''zoo'') Y' \<and>
         replaceProjectNames (X @ artifact_decl (str ''sns-demo'') S @ Y) oldName (str ''zoo'') =
           replaceProjectNames X oldName (str ''zoo'') @ artifact_decl (str ''zoo'') S @
           replaceProjectNames Y oldName (str ''zoo'')"
proof -
  have "turns (artifact_decl (str ''zoo'') S) (artifact_decl (str ''zoo'') S)
          ([[Lit (str ''sns-demo'')]], str ''zoo'')"
    using assms(2-4) by (rule zoo_stable_r11)
  then have stable: "replace_sns_demo (str ''zoo'') (X' @ artifact_decl (str ''zoo'') S @ Y') =
     replace_sns_demo (str ''zoo'') X' @ artifact_decl (str ''zoo'') S @
     replace_sns_demo (str ''zoo'') Y'" for X' Y'
    by (simp add: turns_def replace_sns_demo_def sns_demo_def)
  have rules: "apply_rules (structural_rules (str ''zoo'')) (X @ artifact_decl (str ''sns-demo'') S @ Y) =
      apply_rules (structural_rules (str ''zoo'')) X @ artifact_decl (str ''zoo'') S @
      apply_rules (structural_rules (str ''zoo'')) Y"
    using assms by (rule structural_rules_decl)
  have order: "replaceProjectNames c oldName (str ''zoo'') =
      replace_sns_demo (str ''zoo'') (apply_rules (structural_rules (str ''zoo'')) c)" for c
    by (simp only: replaceProjectNames_def)
  have "replaceProjectNames (X @ artifact_decl (str ''sns-demo'') S @ Y) oldName (str ''zoo'') =
      replaceProjectNames X oldName (str ''zoo'') @ artifact_decl (str ''zoo'') S @
      replaceProjectNames Y oldName (str ''zoo'')"
    unfolding order rules by (rule stable)
  with rules order stable show ?thesis by blast
qed

text \<open>
  The theorem at the declaration for the suffix \<open>app\<close> inside a dependency: the structural
  rules alone give the declaration for \<open>zoo-app\<close>, and so does the rewriter. The order of
  the two steps shows in the rule for \<open>spring.application.name\<close>, which also normalises the
  white space: with the catch-all first, the white space would stay.
\<close>

theorem structural_declaration_rewritten_witness:
  "apply_rules (structural_rules (str ''zoo''))
     (str ''<dependency>'' @ artifact_decl (str ''sns-demo'') (str ''app'') @ str ''</dependency>'') =
     str ''<dependency><artifactId>zoo-app</artifactId></dependency>'' \<and>
   replaceProjectNames
     (str ''<dependency>'' @ artifact_decl (str ''sns-demo'') (str ''app'') @ str ''</dependency>'')
     (str ''demo'') (str ''zoo'') =
     str ''<dependency><artifactId>zoo-app</artifactId></dependency>'' \<and>
   replaceProjectNames (str ''spring.application.name:  sns-demo'') (str ''demo'') (str ''zoo'') =
     str ''spring.application.name: zoo'' \<and>
   apply_rules (structural_rules (str ''zoo''))
     (replace_sns_demo (str ''zoo'') (str ''spring.application.name:  sns-demo'')) =
     str ''spring.application.name:  zoo''"
proof -
  have h: "str ''app'' \<noteq> []" "Lat CHR ''<'' \<notin> set (str ''app'')" "\<not> sublist sns_demo (str ''app'')"
    "\<not> sublist (str ''com.xiaohongshu.sns.demo'') (str ''app'')"
    by code_simp+
  have a: "apply_rules (structural_rules (str ''zoo'')) (str ''<dependency>'') = str ''<dependency>''"
    "apply_rules (structural_rules (str ''zoo'')) (str ''</dependency>'') = str ''</dependency>''"
    by code_simp+
  have b: "replaceProjectNames (str ''<dependency>'') (str ''demo'') (str ''zoo'') = str ''<dependency>''"
    "replaceProjectNames (str ''</dependency>'') (str ''demo'') (str ''zoo'') = str ''</dependency>''"
    by code_simp+
  have c: "replace_sns_demo (str ''zoo'')
      (apply_rules (structural_rules (str ''zoo'')) (str ''spring.application.name:  sns-demo'')) =
      str ''spring.application.name: zoo''"
    by code_simp
  have d: "apply_rules (structural_rules (str ''zoo''))
     (replace_sns_demo (str ''zoo'') (str ''spring.application.name:  sns-demo'')) =
     str ''spring.application.name:  zoo''"
    by code_simp
  from structural_declaration_rewritten [OF h, of "str ''<dependency>''" "str ''</dependency>''"
      "str ''spring.application.name:  sns-demo''" "str ''demo''"] a b c d
  show ?thesis by (simp add: artifact_decl_def)
qed

text \<open>
  The claim as stated fails: the tag for \<open>demo-app\<close> is returned unchanged, and a suffix that
  contains \<open>sns-demo\<close> is rewritten by the catch-all.
\<close>

theorem structural_declaration_counterexample:
  "replaceProjectNames (str ''<artifactId>demo-app</artifactId>'') (str ''demo'') (str ''zoo'')
     = str ''<artifactId>demo-app</artifactId>'' \<and>
   replaceProjectNames (str ''<artifactId>demo-app</artifactId>'') (str ''demo'') (str ''zoo'')
     \<noteq> str ''<artifactId>zoo-app</artifactId>'' \<and>
   replaceProjectNames (str ''<artifactId>sns-demo-sns-demo</artifactId>'') (str ''demo'') (str ''zoo'')
     = str ''<artifactId>zoo-zoo</artifactId>''"
  by code_simp

section \<open>Properties of the file system\<close>

subsection \<open>Example trees and environments\<close>

lemma lookup_remove_at: "p \<noteq> [] \<Longrightarrow> lookup (remove_at n p) p = None"
proof (induction p arbitrary: n)
  case Nil
  then show ?case by simp
next
  case (Cons x p)
  show ?case
  proof (cases n)
    case (Dir es)
    show ?thesis
    proof (cases "p = []")
      case True
      with Dir show ?thesis by (simp add: delete_conv')
    next
      case False
      with Dir Cons.IH [OF False] show ?thesis
        by (cases "map_of es x") (simp_all add: update_conv')
    qed
  qed simp_all
qed

definition example_env :: env where
  "example_env = \<lparr>cwd = Some [str ''work''], dirname = [str ''opt'', str ''cli'', str ''bundle''],
     argv0 = [str ''usr'', str ''bin'', str ''node''], faulty = (\<lambda>op p. False)\<rparr>"


definition example_template :: node where
  "example_template =
     Dir [(str ''sns-demo-app'', Dir [(str ''pom.xml'', File ''<artifactId>sns-demo-app</artifactId>'')]),
          (str ''pom.xml'', File ''<name>sns-demo</name>'')]"


definition example_fresh :: node where
  "example_fresh = Dir [(str ''work'', Dir [(str ''sns-demo'', example_template)])]"

definition example_faulty_env :: env where
  "example_faulty_env = \<lparr>cwd = Some [str ''work''], dirname = [str ''opt'', str ''cli'', str ''bundle''],
     argv0 = [str ''usr'', str ''bin'', str ''node''], faulty = (\<lambda>op p. op = OpWrite \<or> op = OpRm)\<rparr>"

definition example_poms :: "(jstring \<times> node) list" where
  "example_poms =
     [(str ''pom.xml'', File ''<project/>''),
      (str ''zoo-app'', Dir [(str ''pom.xml'', File ''<project/>'')]),
      (str ''zoo-domain'', Dir [(str ''pom.xml'', File ''<project/>'')]),
      (str ''zoo-infrastructure'', Dir [(str ''pom.xml'', File ''<project/>'')]),
      (str ''zoo-common'', Dir [(str ''pom.xml'', File ''<project/>'')]),
      (str ''zoo-start'', Dir [(str ''pom.xml'', File ''<project/>'')])]"

definition example_structure :: node where
  "example_structure = Dir [(str ''work'', Dir [(str ''zoo-parent'', Dir example_poms)])]"

definition example_complete :: node where
  "example_complete =
     Dir [(str ''work'', Dir [(str ''zoo-parent'',
       Dir (example_poms @ [(str ''README.md'', File ''readme''), (str ''.gitignore'', File ''target/'')]))])]"

definition example_partial :: node where
  "example_partial = Dir [(str ''work'', Dir [(str ''zoo-parent'', Dir (butlast example_poms))])]"

subsection \<open>Phase detection\<close>

text \<open>The descriptor files in the words of the specification.\<close>

definition module_names :: "jstring list" where
  "module_names = [str ''app'', str ''domain'', str ''infrastructure'', str ''common'', str ''start'']"

definition descriptor_paths :: "path \<Rightarrow> jstring \<Rightarrow> path list" where
  "descriptor_paths c projectName =
     (c @ [projectName @ str ''-parent'', str ''pom.xml'']) #
     map (\<lambda>m. c @ [projectName @ str ''-parent'', projectName @ str ''-'' @ m, str ''pom.xml'']) module_names"

definition other_paths :: "path \<Rightarrow> jstring \<Rightarrow> path list" where
  "other_paths c projectName =
     [c @ [projectName @ str ''-parent'', projectName @ str ''-start'', str ''src'', str ''main'', str ''java'',
           (str ''com''), str ''xiaohongshu'', str ''sns'', cleanName projectName, str ''start'', str ''Application.java''],
      c @ [projectName @ str ''-parent'', str ''README.md''],
      c @ [projectName @ str ''-parent'', str ''.gitignore'']]"

lemma allPomsExist_iff:
  "allPomsExist root c projectName = list_all (existsSync root) (descriptor_paths c projectName)"
  by (simp add: allPomsExist_def descriptor_paths_def module_names_def Let_def)

text \<open>
  Claim C5. \<open>allPomsExist\<close> holds exactly when the six descriptor files exist: the root
  \<open>pom.xml\<close> and the \<open>pom.xml\<close> of each of the five modules, under
  \<open><name>-parent\<close> in the working directory. Two trees in which the same descriptor files
  exist give the same answer, and the three files of the second phase are not among the six:
  whether they exist does not matter.
\<close>

theorem allPomsExist_correct:
  "allPomsExist root c projectName = list_all (existsSync root) (descriptor_paths c projectName) \<and>
   length (descriptor_paths c projectName) = 6 \<and>
   (list_all (\<lambda>p. existsSync root p = existsSync root' p) (descriptor_paths c projectName)
      \<longrightarrow> allPomsExist root' c projectName = allPomsExist root c projectName) \<and>
   list_all (\<lambda>p. p \<notin> set (descriptor_paths c projectName)) (other_paths c projectName)"
proof -
  have "list_all (existsSync root') ps = list_all (existsSync root) ps"
    if "list_all (\<lambda>p. existsSync root p = existsSync root' p) ps" for ps
    using that by (induction ps) auto
  moreover have "list_all (\<lambda>p. p \<notin> set (descriptor_paths c projectName)) (other_paths c projectName)"
    by (simp add: descriptor_paths_def other_paths_def module_names_def)
  moreover have "length (descriptor_paths c projectName) = 6"
    by (simp add: descriptor_paths_def module_names_def)
  ultimately show ?thesis by (simp add: allPomsExist_iff)
qed

text \<open>A tree with the six descriptors, the same tree with the files of the second phase, and
  a tree that lacks the descriptor of the last module.\<close>

theorem allPomsExist_correct_witness:
  "allPomsExist example_structure [str ''work''] (str ''zoo'') \<and>
   allPomsExist example_complete [str ''work''] (str ''zoo'') \<and>
   \<not> allPomsExist example_partial [str ''work''] (str ''zoo'')"
proof -
  have 1: "allPomsExist example_structure [str ''work''] (str ''zoo'')" by code_simp
  have 2: "list_all (\<lambda>p. existsSync example_structure p = existsSync example_complete p)
     (descriptor_paths [str ''work''] (str ''zoo''))" by code_simp
  have 3: "\<not> list_all (existsSync example_partial) (descriptor_paths [str ''work''] (str ''zoo''))"
    by code_simp
  from allPomsExist_correct [of example_structure "[str ''work'']" "str ''zoo''" example_complete] 1 2
  have "allPomsExist example_complete [str ''work''] (str ''zoo'')" by blast
  moreover from allPomsExist_correct [of example_partial "[str ''work'']" "str ''zoo''" example_partial] 3
  have "\<not> allPomsExist example_partial [str ''work''] (str ''zoo'')" by blast
  ultimately show ?thesis using 1 by simp
qed

subsection \<open>The generator-driven command writes nothing\<close>

text \<open>
  Claim C9. For every argument, environment and tree, the generator-driven command leaves
  the tree as it is. It returns either no payload and one error item, or a payload and one
  information item; and events and payload are the same on two trees in which the same
  descriptor files exist: the command reads the tree through these probes only.
\<close>

theorem create_action_ai_no_write:
  "ai_final (create_action_ai e args root) = root \<and>
   (case ai_payload (create_action_ai e args root) of
      None \<Rightarrow> \<exists>m. ai_events (create_action_ai e args root) = [UiError m]
    | Some p \<Rightarrow> \<exists>m. ai_events (create_action_ai e args root) = [UiInfo m]) \<and>
   (list_all (\<lambda>p. existsSync root p = existsSync root' p)
       (case cwd e of None \<Rightarrow> [] | Some c \<Rightarrow> descriptor_paths c (trim args))
     \<longrightarrow> ai_events (create_action_ai e args root') = ai_events (create_action_ai e args root) \<and>
         ai_payload (create_action_ai e args root') = ai_payload (create_action_ai e args root))"
proof -
  have "allPomsExist root' c n = allPomsExist root c n"
    if "list_all (\<lambda>p. existsSync root p = existsSync root' p) (descriptor_paths c n)" for c n
    using that by (simp add: allPomsExist_def descriptor_paths_def module_names_def)
  then show ?thesis
    by (auto simp: create_action_ai_def Let_def split: option.splits)
qed

text \<open>The command on the tree with the six descriptors, and on the tree that has the files
  of the second phase as well.\<close>

theorem create_action_ai_no_write_witness:
  "ai_final (create_action_ai example_env (str ''zoo'') example_structure) = example_structure \<and>
   ai_payload (create_action_ai example_env (str ''zoo'') example_structure)
     = Some (RemainingFilesPrompt (str ''zoo'')) \<and>
   ai_payload (create_action_ai example_env (str ''zoo'') example_complete)
     = Some (RemainingFilesPrompt (str ''zoo''))"
proof -
  have 1: "ai_payload (create_action_ai example_env (str ''zoo'') example_structure)
     = Some (RemainingFilesPrompt (str ''zoo''))" by code_simp
  have 2: "list_all (\<lambda>p. existsSync example_structure p = existsSync example_complete p)
       (case cwd example_env of None \<Rightarrow> [] | Some c \<Rightarrow> descriptor_paths c (trim (str ''zoo'')))"
    by code_simp
  from create_action_ai_no_write [of example_env "str ''zoo''" example_structure example_complete] 1 2
  show ?thesis by simp
qed

subsection \<open>Collision with an existing target\<close>




subsection \<open>Cleanup after a failed clone\<close>

text \<open>
  Claim C6. When the clone fails with an error, the command returns, and its last event is
  the user-facing error carrying that error. If the target path exists at that moment,
  \<open>rmSync\<close> is called on it: when it succeeds the target is gone, when it fails a console
  warning with the cleanup error comes before the user-facing error, which is still emitted.
\<close>

theorem clone_failure_reported:
  assumes "validateProjectName (trim args)"
    and "getTemplatePath e root = Inr tp" "existsSync root tp"
    and "cwd e = Some c" "\<not> existsSync root (c @ [trim args])"
    and "copyAndReplaceDir fuel e tp (c @ [trim args]) (str ''demo'') (trim args) root = Some (Some err, r1)"
  shows "\<exists>res. create_action fuel e args root = Some res \<and> thrown res = None \<and>
     last (events res) = UiError (CreateFailed err) \<and>
     (if existsSync r1 (c @ [trim args])
      then (case rmSync e r1 (c @ [trim args]) of
              Inr r2 \<Rightarrow> final res = r2 \<and> \<not> existsSync r2 (c @ [trim args]) \<and>
                events res = [UiInfo (Starting (trim args)), UiError (CreateFailed err)]
            | Inl cleanupError \<Rightarrow> final res = r1 \<and>
                events res = [UiInfo (Starting (trim args)), ConsoleWarn cleanupError,
                              UiError (CreateFailed err)])
      else final res = r1 \<and>
           events res = [UiInfo (Starting (trim args)), UiError (CreateFailed err)])"
proof -
  have "\<not> existsSync (remove_at r1 (c @ [trim args])) (c @ [trim args])"
    by (simp add: existsSync_def lookup_remove_at)
  then show ?thesis
    using assms
    by (auto simp: create_action_def Let_def rmSync_def split: sum.splits)
qed

text \<open>A clone whose first write fails, in an environment where the removal fails too.\<close>

theorem clone_failure_reported_witness:
  "create_action 5 example_faulty_env (str ''zoo'') example_fresh =
     Some \<lparr>events = [UiInfo (Starting (str ''zoo'')), ConsoleWarn (EIO OpRm [str ''work'', str ''zoo'']),
                     UiError (CreateFailed (EIO OpWrite [str ''work'', str ''zoo'', str ''zoo-app'', str ''pom.xml'']))],
           final = Dir [(str ''work'', Dir [(str ''sns-demo'', example_template),
                                        (str ''zoo'', Dir [(str ''zoo-app'', Dir [])])])],
           thrown = None\<rparr>"
proof -
  let ?r1 = "Dir [(str ''work'', Dir [(str ''sns-demo'', example_template),
                                        (str ''zoo'', Dir [(str ''zoo-app'', Dir [])])])]"
  let ?err = "EIO OpWrite [str ''work'', str ''zoo'', str ''zoo-app'', str ''pom.xml'']"
  have t: "trim (str ''zoo'') = str ''zoo''" by code_simp
  have v: "validateProjectName (trim (str ''zoo''))" by code_simp
  have tp: "getTemplatePath example_faulty_env example_fresh = Inr [str ''work'', str ''sns-demo'']"
    "existsSync example_fresh [str ''work'', str ''sns-demo'']" by code_simp+
  have c: "cwd example_faulty_env = Some [str ''work'']"
    "\<not> existsSync example_fresh ([str ''work''] @ [trim (str ''zoo'')])" by code_simp+
  have cl: "copyAndReplaceDir 5 example_faulty_env [str ''work'', str ''sns-demo''] ([str ''work''] @ [trim (str ''zoo'')])
      (str ''demo'') (trim (str ''zoo'')) example_fresh = Some (Some ?err, ?r1)"
    by code_simp
  have ex: "existsSync ?r1 ([str ''work''] @ [trim (str ''zoo'')])" by code_simp
  have rm: "rmSync example_faulty_env ?r1 ([str ''work''] @ [trim (str ''zoo'')]) = Inl (EIO OpRm [str ''work'', str ''zoo''])"
    by code_simp
  from clone_failure_reported [OF v tp c cl] ex rm t obtain res where
    "create_action 5 example_faulty_env (str ''zoo'') example_fresh = Some res" "thrown res = None"
    "final res = ?r1"
    "events res = [UiInfo (Starting (str ''zoo'')), ConsoleWarn (EIO OpRm [str ''work'', str ''zoo'']),
                   UiError (CreateFailed ?err)]"
    by auto
  then show ?thesis by (cases res) simp
qed

subsection \<open>The tree a clone produces\<close>

text \<open>
  The destination the specification describes: the copied entries of a directory are its
  files and directories, each under its renamed name. The bytes of a file are the encoding
  of the rewritten text that the bytes of the source file decode to.
\<close>

abbreviation copied :: "(jstring \<times> node) list \<Rightarrow> (jstring \<times> node) list" where
  "copied es \<equiv> filter (\<lambda>(name, c). c \<noteq> Special) es"

fun clone_of :: "jstring \<Rightarrow> jstring \<Rightarrow> node \<Rightarrow> node" where
  "clone_of oldName newName (File content) =
     File (utf8_encode (replaceProjectNames (utf8_decode content) oldName newName))"
| "clone_of oldName newName (Dir es) =
     Dir (map (\<lambda>(name, c). (replace_sns_demo newName name, clone_of oldName newName c))
            (copied es))"
| "clone_of oldName newName Special = Special"

text \<open>The number of files and of directories of a tree, its root included.\<close>

fun count_files :: "node \<Rightarrow> nat" where
  "count_files (File content) = 1"
| "count_files (Dir es) = sum_list (map (\<lambda>(name, c). count_files c) es)"
| "count_files Special = 0"

fun count_dirs :: "node \<Rightarrow> nat" where
  "count_dirs (File content) = 0"
| "count_dirs (Dir es) = 1 + sum_list (map (\<lambda>(name, c). count_dirs c) es)"
| "count_dirs Special = 0"

text \<open>In every directory of the tree the names are distinct, and the names the copied
  entries get by renaming are distinct.\<close>

fun clonable :: "jstring \<Rightarrow> node \<Rightarrow> bool" where
  "clonable newName (Dir es) =
     (distinct (map fst es) \<and>
      distinct (map (\<lambda>(name, c). replace_sns_demo newName name) (copied es)) \<and>
      (\<forall>(name, c) \<in> set es. clonable newName c))"
| "clonable newName other = True"

text \<open>\<open>place r p t\<close> is the tree \<open>r\<close> with \<open>t\<close> as the subtree at \<open>p\<close>, the directories on
  the way created where they are missing; it says what \<open>mkdirs\<close> and \<open>write_at\<close> do to the
  tree. \<open>passable r p\<close>: no file is in the way of \<open>p\<close>.\<close>

fun place :: "node \<Rightarrow> path \<Rightarrow> node \<Rightarrow> node" where
  "place n [] t = t"
| "place n (x # p) t =
     (case n of
        Dir es \<Rightarrow>
          Dir (AList.update x
                 (place (case map_of es x of None \<Rightarrow> Dir [] | Some c \<Rightarrow> c) p t) es)
      | _ \<Rightarrow> n)"

fun passable :: "node \<Rightarrow> path \<Rightarrow> bool" where
  "passable n [] = True"
| "passable n (x # p) =
     (case n of
        Dir es \<Rightarrow> (case map_of es x of None \<Rightarrow> True | Some c \<Rightarrow> passable c p)
      | _ \<Rightarrow> False)"

lemma sum_copied:
  assumes "\<And>name c. (name, c) \<in> set es \<Longrightarrow> f (g c) = f c" and "f Special = (0::nat)"
  shows "sum_list (map (\<lambda>(name, c). f c) (map (\<lambda>(name, c). (h name, g c)) (copied es))) =
         sum_list (map (\<lambda>(name, c). f c) es)"
  using assms(1)
proof (induction es)
  case Nil
  then show ?case by simp
next
  case (Cons a es)
  obtain name c where a: "a = (name, c)" by (cases a)
  have "f (g c) = f c" using Cons.prems [of name c] a by simp
  moreover have "sum_list (map (\<lambda>(name, c). f c) (map (\<lambda>(name, c). (h name, g c)) (copied es))) =
         sum_list (map (\<lambda>(name, c). f c) es)"
  proof (rule Cons.IH)
    fix name c assume "(name, c) \<in> set es"
    then show "f (g c) = f c" using Cons.prems [of name c] by simp
  qed
  ultimately show ?case using a assms(2) by simp
qed

lemma count_files_clone: "count_files (clone_of oldName newName t) = count_files t"
proof (induction t)
  case (Dir es)
  have "count_files (clone_of oldName newName c) = count_files c" if "(name, c) \<in> set es" for name c
    using Dir [of "(name, c)" c] that by simp
  then show ?case
    using sum_copied [of es count_files "clone_of oldName newName" "replace_sns_demo newName"]
    by simp
qed simp_all

lemma count_dirs_clone: "count_dirs (clone_of oldName newName t) = count_dirs t"
proof (induction t)
  case (Dir es)
  have "count_dirs (clone_of oldName newName c) = count_dirs c" if "(name, c) \<in> set es" for name c
    using Dir [of "(name, c)" c] that by simp
  then show ?case
    using sum_copied [of es count_dirs "clone_of oldName newName" "replace_sns_demo newName"]
    by simp
qed simp_all

lemma lookup_append:
  "lookup r (p @ q) = (case lookup r p of None \<Rightarrow> None | Some t \<Rightarrow> lookup t q)"
proof (induction p arbitrary: r)
  case Nil
  then show ?case by simp
next
  case (Cons x p)
  then show ?case by (cases r) (auto split: option.splits)
qed

lemma update_fresh: "k \<notin> fst ` set al \<Longrightarrow> AList.update k v al = al @ [(k, v)]"
  by (induction al) auto

lemma map_of_fresh: "k \<notin> fst ` set al \<longleftrightarrow> map_of al k = None"
  by (simp add: map_of_eq_None_iff)

lemma place_append: "place (place r p t) (p @ q) u = place r p (place t q u)"
proof (induction p arbitrary: r)
  case Nil
  then show ?case by simp
next
  case (Cons x p)
  then show ?case by (cases r) (simp_all add: update_conv')
qed

lemma place_over: "place (place r (p @ q) t) p u = place r p u"
proof (induction p arbitrary: r)
  case Nil
  then show ?case by simp
next
  case (Cons x p)
  then show ?case by (cases r) (simp_all add: update_conv')
qed

lemma passable_empty [simp]: "passable (Dir []) p"
  by (cases p) simp_all

lemma lookup_empty: "q \<noteq> [] \<Longrightarrow> lookup (Dir []) q = None"
  by (cases q) simp_all

lemma lookup_place: "passable r p \<Longrightarrow> lookup (place r p t) (p @ q) = lookup t q"
proof (induction p arbitrary: r)
  case Nil
  then show ?case by simp
next
  case (Cons x p)
  then show ?case by (cases r) (auto simp: update_conv' split: option.splits)
qed

lemma lookup_place_other:
  "\<not> prefix p q \<Longrightarrow> \<not> prefix q p \<Longrightarrow> lookup (place r p t) q = lookup r q"
proof (induction p arbitrary: r q)
  case Nil
  then show ?case by simp
next
  case (Cons x p)
  from Cons.prems obtain y q' where q: "q = y # q'" by (cases q) auto
  show ?case
  proof (cases r)
    case (Dir es)
    show ?thesis
    proof (cases "x = y")
      case True
      with Cons.prems q have pq: "\<not> prefix p q'" "\<not> prefix q' p" by simp_all
      then have "q' \<noteq> []" by auto
      with Cons.IH [OF pq] Dir q True show ?thesis
        by (auto simp: update_conv' lookup_empty split: option.splits)
    next
      case False
      with Dir q show ?thesis by (simp add: update_conv')
    qed
  qed (simp_all add: q)
qed

lemma place_self: "lookup r p = Some t \<Longrightarrow> place r p t = r"
proof (induction p arbitrary: r)
  case Nil
  then show ?case by simp
next
  case (Cons x p)
  then show ?case
    by (cases r) (auto simp: update_triv split: option.splits)
qed

lemma lookup_passable: "lookup r p = Some t \<Longrightarrow> passable r p"
proof (induction p arbitrary: r)
  case Nil
  then show ?case by simp
next
  case (Cons x p)
  then show ?case by (cases r) (auto split: option.splits)
qed

lemma passable_append:
  "passable r (p @ q) \<longleftrightarrow> passable r p \<and> (case lookup r p of None \<Rightarrow> True | Some t \<Rightarrow> passable t q)"
proof (induction p arbitrary: r)
  case Nil
  then show ?case by simp
next
  case (Cons x p)
  then show ?case by (cases r) (auto split: option.splits)
qed

lemma mkdirs_place:
  "mkdirs w r p = Inr r' \<Longrightarrow>
   r' = place r p (case lookup r p of Some d \<Rightarrow> d | None \<Rightarrow> Dir []) \<and> passable r p"
proof (induction p arbitrary: r r')
  case Nil
  then show ?case by (cases r) simp_all
next
  case (Cons x p)
  show ?case
  proof (cases r)
    case (Dir es)
    let ?c = "case map_of es x of None \<Rightarrow> Dir [] | Some c \<Rightarrow> c"
    from Cons.prems Dir obtain c' where m: "mkdirs w ?c p = Inr c'"
      and r': "r' = Dir (AList.update x c' es)"
      by (auto split: sum.splits)
    from Cons.IH [OF m] have c': "c' = place ?c p (case lookup ?c p of Some d \<Rightarrow> d | None \<Rightarrow> Dir [])"
      and pa: "passable ?c p" by simp_all
    have "(case lookup ?c p of Some d \<Rightarrow> d | None \<Rightarrow> Dir []) =
          (case lookup r (x # p) of Some d \<Rightarrow> d | None \<Rightarrow> Dir [])"
      using Dir by (cases "map_of es x"; cases p) simp_all
    with c' r' Dir pa show ?thesis by (auto split: option.splits)
  next
    case (File c)
    with Cons.prems show ?thesis by simp
  next
    case Special
    with Cons.prems show ?thesis by simp
  qed
qed

lemma write_place:
  "write_at w r p c = Inr r' \<Longrightarrow> lookup r p = None \<Longrightarrow>
   r' = place r p (File c) \<and> passable r p"
proof (induction p arbitrary: r r')
  case Nil
  then show ?case by simp
next
  case (Cons x p)
  show ?case
  proof (cases r)
    case (Dir es)
    show ?thesis
    proof (cases "map_of es x")
      case None
      with Cons.prems Dir show ?thesis by (auto split: if_splits)
    next
      case (Some ch)
      with Cons.prems Dir obtain ch' where m: "write_at w ch p c = Inr ch'"
        and r': "r' = Dir (AList.update x ch' es)" and l: "lookup ch p = None"
        by (auto split: sum.splits)
      from Cons.IH [OF m l] r' Dir Some show ?thesis by simp
    qed
  next
    case (File c)
    with Cons.prems show ?thesis by simp
  next
    case Special
    with Cons.prems show ?thesis by simp
  qed
qed

lemma snoc_incomparable:
  assumes "\<not> prefix a b" "\<not> prefix b a"
  shows "\<not> prefix (a @ [x]) (b @ [y])"
proof
  assume "prefix (a @ [x]) (b @ [y])"
  then have "a @ [x] = b @ [y] \<or> prefix (a @ [x]) b" by (simp add: prefix_snoc)
  then show False
  proof
    assume "a @ [x] = b @ [y]"
    then have "a = b" by simp
    with assms show False by simp
  next
    assume "prefix (a @ [x]) b"
    then have "prefix a b" by (meson append_prefixD)
    with assms show False by simp
  qed
qed

lemma snoc_incomparable_left:
  assumes "\<not> prefix a b" "\<not> prefix b a"
  shows "\<not> prefix (a @ [x]) b" "\<not> prefix b (a @ [x]) \<or> b = a @ [x]"
  using assms by (auto simp: prefix_snoc dest: append_prefixD)

lemma stat_kind:
  "statSync e r p = Inr st \<Longrightarrow> lookup r p = Some c \<Longrightarrow>
   st = (case c of Dir es \<Rightarrow> IsDirectory | File content \<Rightarrow> IsFile | Special \<Rightarrow> IsOther)"
  by (cases c) (auto simp: statSync_def split: if_splits)

lemma readdir_names:
  "readdirSync e r p = Inr items \<Longrightarrow> lookup r p = Some (Dir es) \<Longrightarrow> items = map fst es"
  by (auto simp: readdirSync_def split: if_splits)

lemma mkdirSync_place:
  "mkdirSync e r p = Inr r' \<Longrightarrow> \<not> existsSync r p \<Longrightarrow> r' = place r p (Dir []) \<and> passable r p"
  using mkdirs_place [of p r p r']
  by (auto simp: mkdirSync_def existsSync_def split: if_splits)

lemma writeFileSync_place:
  "writeFileSync e r p c = Inr r' \<Longrightarrow> \<not> existsSync r p \<Longrightarrow>
   r' = place r p (File (utf8_encode c))"
  using write_place [of p r p "utf8_encode c" r']
  by (auto simp: writeFileSync_def existsSync_def split: if_splits)

lemma copyAndReplaceFile_place:
  assumes "copyAndReplaceFile e s d oldName newName r = (None, r')"
    and "lookup r s = Some (File c)" "existsSync r (butlast d)" "\<not> existsSync r d"
  shows "r' = place r d (File (utf8_encode (replaceProjectNames (utf8_decode c) oldName newName)))"
proof -
  from assms(1,3) obtain content where rd: "readFileSync e r s = Inr content"
    and wr: "writeFileSync e r d (replaceProjectNames content oldName newName) = Inr r'"
    by (auto simp: copyAndReplaceFile_def Let_def split: sum.splits)
  from rd assms(2) have "content = utf8_decode c"
    by (auto simp: readFileSync_def split: if_splits)
  with wr assms(4) show ?thesis by (simp add: writeFileSync_place)
qed

lemma place_entry:
  assumes "lookup r dest = Some (Dir E)" "rn \<notin> fst ` set E"
  shows "\<not> existsSync r (dest @ [rn])"
    and "existsSync r (butlast (dest @ [rn]))"
    and "lookup (place r (dest @ [rn]) T) dest = Some (Dir (E @ [(rn, T)]))"
proof -
  from assms(2) have m: "map_of E rn = None" by (simp add: map_of_fresh)
  with assms(1) show "\<not> existsSync r (dest @ [rn])"
    by (simp add: existsSync_def lookup_append)
  from assms(1) show "existsSync r (butlast (dest @ [rn]))"
    by (simp add: existsSync_def)
  have "place r (dest @ [rn]) T = place (place r dest (Dir E)) (dest @ [rn]) T"
    using assms(1) by (simp add: place_self)
  also have "\<dots> = place r dest (place (Dir E) [rn] T)" by (rule place_append)
  also have "place (Dir E) [rn] T = Dir (E @ [(rn, T)])"
    using assms(2) by (simp add: update_fresh)
  finally have "place r (dest @ [rn]) T = place r dest (Dir (E @ [(rn, T)]))" .
  moreover have "passable r dest" using assms(1) by (rule lookup_passable)
  ultimately show "lookup (place r (dest @ [rn]) T) dest = Some (Dir (E @ [(rn, T)]))"
    using lookup_place [of r dest "Dir (E @ [(rn, T)])" "[]"] by simp
qed

lemma for_items_clone:
  assumes rec: "\<And>s d r r' es'. rec s d r = Some (None, r') \<Longrightarrow> lookup r s = Some (Dir es') \<Longrightarrow>
      clonable newName (Dir es') \<Longrightarrow> \<not> existsSync r d \<Longrightarrow> \<not> prefix s d \<Longrightarrow> \<not> prefix d s \<Longrightarrow>
      r' = place r d (clone_of oldName newName (Dir es'))"
    and inc: "\<not> prefix src dest" "\<not> prefix dest src"
  shows "for_items rec e src dest oldName newName (map fst rest) r = Some (None, r') \<Longrightarrow>
     (\<forall>(n, c) \<in> set rest. lookup r (src @ [n]) = Some c \<and> clonable newName c) \<Longrightarrow>
     lookup r dest = Some (Dir E) \<Longrightarrow>
     distinct (map fst E @ map (\<lambda>(n, c). replace_sns_demo newName n) (copied rest)) \<Longrightarrow>
     r' = place r dest
       (Dir (E @ map (\<lambda>(n, c). (replace_sns_demo newName n, clone_of oldName newName c))
                  (copied rest)))"
proof (induction rest arbitrary: r E)
  case Nil
  then show ?case by (simp add: place_self)
next
  case (Cons a rest)
  obtain n c where a: "a = (n, c)" by (cases a)
  let ?rn = "replace_sns_demo newName n"
  let ?sp = "src @ [n]" and ?dp = "dest @ [?rn]"
  let ?cl = "\<lambda>es. map (\<lambda>(n, c). (replace_sns_demo newName n, clone_of oldName newName c)) (copied es)"
  from Cons.prems(2) a have lc: "lookup r ?sp = Some c" and cc: "clonable newName c"
    and others: "\<forall>(n, c) \<in> set rest. lookup r (src @ [n]) = Some c \<and> clonable newName c"
    by simp_all
  from Cons.prems(1) a have fi:
    "for_items rec e src dest oldName newName (n # map fst rest) r = Some (None, r')" by simp
  then obtain st where st: "statSync e r ?sp = Inr st"
    by (auto simp: Let_def split: sum.splits)
  note kind = stat_kind [OF st lc]
  have step: "r' = place r dest (Dir (E @ (?rn, T) # ?cl rest))"
    if r1: "r1 = place r ?dp T"
      and go: "for_items rec e src dest oldName newName (map fst rest) r1 = Some (None, r')"
      and ns: "c \<noteq> Special" for r1 T
  proof -
    from Cons.prems(4) a ns have fresh: "?rn \<notin> fst ` set E"
      and d: "distinct (map fst (E @ [(?rn, T)]) @
                map (\<lambda>(n, c). replace_sns_demo newName n) (copied rest))"
      by auto
    have l1: "lookup r1 dest = Some (Dir (E @ [(?rn, T)]))"
      unfolding r1 using Cons.prems(3) fresh by (rule place_entry(3))
    have o1: "\<forall>(n, c) \<in> set rest. lookup r1 (src @ [n]) = Some c \<and> clonable newName c"
    proof (clarify)
      fix n' c' assume m: "(n', c') \<in> set rest"
      have "lookup r1 (src @ [n']) = lookup r (src @ [n'])"
        unfolding r1 using inc by (intro lookup_place_other snoc_incomparable)
      with others m show "lookup r1 (src @ [n']) = Some c' \<and> clonable newName c'" by auto
    qed
    from Cons.IH [OF go o1 l1 d]
    have "r' = place r1 dest (Dir ((E @ [(?rn, T)]) @ ?cl rest))" .
    then show ?thesis unfolding r1 by (simp add: place_over)
  qed
  show ?case
  proof (cases c)
    case (Dir es')
    with kind have "st = IsDirectory" by simp
    with fi st obtain r1 where rc: "rec ?sp ?dp r = Some (None, r1)"
      and go: "for_items rec e src dest oldName newName (map fst rest) r1 = Some (None, r')"
      by (auto simp: Let_def split: option.splits prod.splits)
    from Cons.prems(4) a Dir have fresh: "?rn \<notin> fst ` set E" by auto
    have "r1 = place r ?dp (clone_of oldName newName (Dir es'))"
    proof (rule rec [OF rc])
      show "lookup r ?sp = Some (Dir es')" using lc Dir by simp
      show "clonable newName (Dir es')" using cc Dir by simp
      show "\<not> existsSync r ?dp" using Cons.prems(3) fresh by (rule place_entry(1))
      show "\<not> prefix ?sp ?dp" using inc by (rule snoc_incomparable)
      show "\<not> prefix ?dp ?sp" using inc(2,1) by (rule snoc_incomparable)
    qed
    from step [OF this go] Dir a show ?thesis by simp
  next
    case (File content)
    with kind have "st = IsFile" by simp
    with fi st obtain r1 where cp: "copyAndReplaceFile e ?sp ?dp oldName newName r = (None, r1)"
      and go: "for_items rec e src dest oldName newName (map fst rest) r1 = Some (None, r')"
      by (auto simp: Let_def split: option.splits prod.splits)
    from Cons.prems(4) a File have fresh: "?rn \<notin> fst ` set E" by auto
    have "r1 = place r ?dp
        (File (utf8_encode (replaceProjectNames (utf8_decode content) oldName newName)))"
      using cp
    proof (rule copyAndReplaceFile_place)
      show "lookup r ?sp = Some (File content)" using lc File by simp
      show "existsSync r (butlast ?dp)" using Cons.prems(3) fresh by (rule place_entry(2))
      show "\<not> existsSync r ?dp" using Cons.prems(3) fresh by (rule place_entry(1))
    qed
    from step [OF this go] File a show ?thesis by simp
  next
    case Special
    with kind have "st = IsOther" by simp
    with fi st have go:
      "for_items rec e src dest oldName newName (map fst rest) r = Some (None, r')"
      by (simp add: Let_def)
    from Cons.prems(4) a Special
    have d: "distinct (map fst E @ map (\<lambda>(n, c). replace_sns_demo newName n) (copied rest))"
      by simp
    from Cons.IH [OF go others Cons.prems(3) d] Special a show ?thesis by simp
  qed
qed

lemma copyAndReplaceDir_place:
  "copyAndReplaceDir fuel e src dest oldName newName r = Some (None, r') \<Longrightarrow>
   lookup r src = Some (Dir es) \<Longrightarrow> clonable newName (Dir es) \<Longrightarrow>
   \<not> existsSync r dest \<Longrightarrow> \<not> prefix src dest \<Longrightarrow> \<not> prefix dest src \<Longrightarrow>
   r' = place r dest (clone_of oldName newName (Dir es))"
proof (induction fuel arbitrary: src dest r r' es)
  case 0
  then show ?case by simp
next
  case (Suc fuel)
  let ?rec = "\<lambda>s d r. copyAndReplaceDir fuel e s d oldName newName r"
  from Suc.prems(1,4) obtain r1 items where mk: "mkdirSync e r dest = Inr r1"
    and rd: "readdirSync e r1 src = Inr items"
    and fi: "for_items ?rec e src dest oldName newName items r1 = Some (None, r')"
    by (auto split: sum.splits)
  from mkdirSync_place [OF mk Suc.prems(4)]
  have r1: "r1 = place r dest (Dir [])" and pa: "passable r dest" by simp_all
  have ls: "lookup r1 q = lookup r q" if "prefix src q" for q
  proof -
    from that Suc.prems(5,6) have "\<not> prefix dest q" "\<not> prefix q dest"
      by (auto dest: prefix_order.trans prefix_same_cases)
    then show ?thesis unfolding r1 by (rule lookup_place_other)
  qed
  have l1: "lookup r1 src = Some (Dir es)" using ls [of src] Suc.prems(2) by simp
  from readdir_names [OF rd l1] have items: "items = map fst es" .
  have ld: "lookup r1 dest = Some (Dir [])"
    unfolding r1 using lookup_place [OF pa, of "Dir []" "[]"] by simp
  from Suc.prems(3) have dn: "distinct (map fst es)"
    and dr: "distinct (map (\<lambda>(n, c). replace_sns_demo newName n) (copied es))"
    and ch: "\<forall>(n, c) \<in> set es. clonable newName c" by simp_all
  have en: "\<forall>(n, c) \<in> set es. lookup r1 (src @ [n]) = Some c \<and> clonable newName c"
  proof (clarify)
    fix n c assume m: "(n, c) \<in> set es"
    with dn have "map_of es n = Some c" by simp
    with l1 have "lookup r1 (src @ [n]) = Some c" by (simp add: lookup_append)
    with ch m show "lookup r1 (src @ [n]) = Some c \<and> clonable newName c" by auto
  qed
  have "r' = place r1 dest
       (Dir ([] @ map (\<lambda>(n, c). (replace_sns_demo newName n, clone_of oldName newName c))
                  (copied es)))"
  proof (rule for_items_clone [where rec = ?rec and rest = es and e = e])
    show "for_items ?rec e src dest oldName newName (map fst es) r1 = Some (None, r')"
      using fi items by simp
    show "\<forall>(n, c) \<in> set es. lookup r1 (src @ [n]) = Some c \<and> clonable newName c" by (rule en)
    show "lookup r1 dest = Some (Dir [])" by (rule ld)
    show "distinct (map fst [] @ map (\<lambda>(n, c). replace_sns_demo newName n) (copied es))"
      using dr by simp
    show "\<not> prefix src dest" "\<not> prefix dest src" by fact+
  next
    fix s d r r' es'
    assume "copyAndReplaceDir fuel e s d oldName newName r = Some (None, r')"
      "lookup r s = Some (Dir es')" "clonable newName (Dir es')" "\<not> existsSync r d"
      "\<not> prefix s d" "\<not> prefix d s"
    then show "r' = place r d (clone_of oldName newName (Dir es'))" by (rule Suc.IH)
  qed
  then show ?case
    unfolding r1 using place_over [of r dest "[]"] by simp
qed

lemma exists_prefix: "lookup r p = Some t \<Longrightarrow> prefix q p \<Longrightarrow> existsSync r q"
  by (auto simp: prefix_def existsSync_def lookup_append split: option.splits)

lemma mkdir_first:
  "copyAndReplaceDir fuel e src dest oldName newName r = Some (None, r') \<Longrightarrow>
   \<not> existsSync r dest \<Longrightarrow> passable r dest"
proof (cases fuel)
  case 0
  assume "copyAndReplaceDir fuel e src dest oldName newName r = Some (None, r')"
  with 0 show ?thesis by simp
next
  case (Suc f)
  assume a: "copyAndReplaceDir fuel e src dest oldName newName r = Some (None, r')"
    and n: "\<not> existsSync r dest"
  with Suc obtain r1 where "mkdirSync e r dest = Inr r1" by (auto split: sum.splits)
  from mkdirSync_place [OF this n] show ?thesis by simp
qed

definition example_clash :: node where
  "example_clash =
     Dir [(str ''work'', Dir [(str ''sns-demo'',
       Dir [(str ''sns-demo.txt'', File ''first''), (str ''zoo.txt'', File ''second'')])])]"

text \<open>A template with a file of well-formed UTF-8 beyond ASCII, the character U+4E2D
  followed by \<open>sns-demo\<close>, and a file of three bytes that are not UTF-8.\<close>

definition example_bytes :: node where
  "example_bytes =
     Dir [(str ''work'', Dir [(str ''sns-demo'',
       Dir [(str ''text.txt'', File ([CHR 0xE4, CHR 0xB8, CHR 0xAD] @ ''sns-demo'')),
            (str ''data.bin'', File [CHR 0xFF, CHR 0xFE, CHR 0xE9])])])]"

text \<open>The depth of a tree: the fuel a clone of it needs.\<close>

fun height :: "node \<Rightarrow> nat" where
  "height (Dir es) = Suc (fold max (map (\<lambda>(name, c). height c) es) 0)"
| "height other = 0"

lemma fold_max_ge: "a \<le> fold max xs (a::nat)"
proof (induction xs arbitrary: a)
  case Nil
  then show ?case by simp
next
  case (Cons x xs)
  have "max x a \<le> fold max xs (max x a)" by (rule Cons.IH)
  then show ?case by simp
qed

lemma fold_max_mem: "x \<in> set xs \<Longrightarrow> x \<le> fold max xs (a::nat)"
proof (induction xs arbitrary: a)
  case Nil
  then show ?case by simp
next
  case (Cons y xs)
  show ?case
  proof (cases "x = y")
    case True
    have "max y a \<le> fold max xs (max y a)" by (rule fold_max_ge)
    with True show ?thesis by simp
  next
    case False
    with Cons.prems have "x \<in> set xs" by simp
    from Cons.IH [OF this] show ?thesis by simp
  qed
qed

lemma height_child: "(n, c) \<in> set es \<Longrightarrow> height c < height (Dir es)"
proof -
  assume "(n, c) \<in> set es"
  then have "height c \<in> set (map (\<lambda>(name, c). height c) es)" by force
  from fold_max_mem [OF this, of 0] show ?thesis by simp
qed

lemma mkdirs_ok:
  "passable r p \<Longrightarrow> lookup r p = None \<or> (\<exists>es. lookup r p = Some (Dir es)) \<Longrightarrow>
   \<exists>r'. mkdirs w r p = Inr r'"
proof (induction p arbitrary: r)
  case Nil
  then show ?case by auto
next
  case (Cons x p)
  show ?case
  proof (cases r)
    case (Dir es)
    let ?c = "case map_of es x of None \<Rightarrow> Dir [] | Some c \<Rightarrow> c"
    have "passable ?c p" using Cons.prems(1) Dir by (cases "map_of es x") simp_all
    moreover have "lookup ?c p = None \<or> (\<exists>es. lookup ?c p = Some (Dir es))"
    proof (cases "map_of es x")
      case None
      then show ?thesis by (cases p) simp_all
    next
      case (Some c)
      with Cons.prems(2) Dir show ?thesis by simp
    qed
    ultimately obtain c' where "mkdirs w ?c p = Inr c'" using Cons.IH by blast
    with Dir show ?thesis by simp
  next
    case (File c)
    with Cons.prems show ?thesis by simp
  next
    case Special
    with Cons.prems show ?thesis by simp
  qed
qed

lemma write_ok:
  "lookup r p = Some (Dir E) \<Longrightarrow> map_of E x = None \<Longrightarrow> \<exists>r'. write_at w r (p @ [x]) c = Inr r'"
proof (induction p arbitrary: r)
  case Nil
  then show ?case by simp
next
  case (Cons y p)
  show ?case
  proof (cases r)
    case (Dir es)
    with Cons.prems(1) obtain ch where ch: "map_of es y = Some ch" "lookup ch p = Some (Dir E)"
      by (auto split: option.splits)
    from Cons.IH [OF ch(2) Cons.prems(2)] obtain ch' where "write_at w ch (p @ [x]) c = Inr ch'"
      by blast
    with Dir ch show ?thesis by simp
  next
    case (File c)
    with Cons.prems show ?thesis by simp
  next
    case Special
    with Cons.prems show ?thesis by simp
  qed
qed

lemma copyAndReplaceFile_ok:
  assumes "\<And>op p. \<not> faulty e op p"
    and "lookup r s = Some (File c)" "lookup r d = Some (Dir E)" "map_of E x = None"
  shows "\<exists>r'. copyAndReplaceFile e s (d @ [x]) oldName newName r = (None, r')"
proof -
  from write_ok [OF assms(3,4)] obtain r'
    where "write_at (d @ [x]) r (d @ [x])
      (utf8_encode (replaceProjectNames (utf8_decode c) oldName newName)) = Inr r'"
    by blast
  then show ?thesis
    using assms(1-3)
    by (simp add: copyAndReplaceFile_def existsSync_def readFileSync_def writeFileSync_def)
qed

lemma for_items_succeeds:
  assumes rec_ok: "\<And>s d r es'. lookup r s = Some (Dir es') \<Longrightarrow> clonable newName (Dir es') \<Longrightarrow>
      \<not> existsSync r d \<Longrightarrow> passable r d \<Longrightarrow> \<not> prefix s d \<Longrightarrow> \<not> prefix d s \<Longrightarrow>
      height (Dir es') \<le> fuel \<Longrightarrow> \<exists>r'. rec s d r = Some (None, r')"
    and rec: "\<And>s d r r' es'. rec s d r = Some (None, r') \<Longrightarrow> lookup r s = Some (Dir es') \<Longrightarrow>
      clonable newName (Dir es') \<Longrightarrow> \<not> existsSync r d \<Longrightarrow> \<not> prefix s d \<Longrightarrow> \<not> prefix d s \<Longrightarrow>
      r' = place r d (clone_of oldName newName (Dir es'))"
    and inc: "\<not> prefix src dest" "\<not> prefix dest src"
    and nf: "\<And>op p. \<not> faulty e op p"
  shows "(\<forall>(n, c) \<in> set rest. lookup r (src @ [n]) = Some c \<and> clonable newName c \<and> height c \<le> fuel) \<Longrightarrow>
     lookup r dest = Some (Dir E) \<Longrightarrow>
     distinct (map fst E @ map (\<lambda>(n, c). replace_sns_demo newName n) (copied rest)) \<Longrightarrow>
     \<exists>r'. for_items rec e src dest oldName newName (map fst rest) r = Some (None, r')"
proof (induction rest arbitrary: r E)
  case Nil
  then show ?case by simp
next
  case (Cons a rest)
  obtain n c where a: "a = (n, c)" by (cases a)
  let ?rn = "replace_sns_demo newName n"
  let ?sp = "src @ [n]" and ?dp = "dest @ [?rn]"
  from Cons.prems(1) a have lc: "lookup r ?sp = Some c" and cc: "clonable newName c"
    and hc: "height c \<le> fuel"
    and others: "\<forall>(n, c) \<in> set rest. lookup r (src @ [n]) = Some c \<and> clonable newName c \<and> height c \<le> fuel"
    by simp_all
  have st: "statSync e r ?sp =
      Inr (case c of Dir es \<Rightarrow> IsDirectory | File content \<Rightarrow> IsFile | Special \<Rightarrow> IsOther)"
    using lc nf by (cases c) (simp_all add: statSync_def)
  have step: "\<exists>r'. for_items rec e src dest oldName newName (map fst rest) r1 = Some (None, r')"
    if r1: "r1 = place r ?dp T" and ns: "c \<noteq> Special" for r1 T
  proof -
    from Cons.prems(3) a ns have fresh: "?rn \<notin> fst ` set E"
      and d: "distinct (map fst (E @ [(?rn, T)]) @
                map (\<lambda>(n, c). replace_sns_demo newName n) (copied rest))"
      by auto
    have l1: "lookup r1 dest = Some (Dir (E @ [(?rn, T)]))"
      unfolding r1 using Cons.prems(2) fresh by (rule place_entry(3))
    have o1: "\<forall>(n, c) \<in> set rest. lookup r1 (src @ [n]) = Some c \<and> clonable newName c \<and> height c \<le> fuel"
    proof (clarify)
      fix n' c' assume m: "(n', c') \<in> set rest"
      have "lookup r1 (src @ [n']) = lookup r (src @ [n'])"
        unfolding r1 using inc by (intro lookup_place_other snoc_incomparable)
      with others m
      show "lookup r1 (src @ [n']) = Some c' \<and> clonable newName c' \<and> height c' \<le> fuel" by auto
    qed
    from Cons.IH [OF o1 l1 d] show ?thesis .
  qed
  show ?case
  proof (cases c)
    case (Dir es')
    from Cons.prems(3) a Dir have fresh: "?rn \<notin> fst ` set E" by auto
    have ne: "\<not> existsSync r ?dp" using Cons.prems(2) fresh by (rule place_entry(1))
    have pa: "passable r ?dp"
      using Cons.prems(2) lookup_passable [OF Cons.prems(2)]
      by (simp add: passable_append split: option.splits)
    have i1: "\<not> prefix ?sp ?dp" using inc by (rule snoc_incomparable)
    have i2: "\<not> prefix ?dp ?sp" using inc(2,1) by (rule snoc_incomparable)
    have ls: "lookup r ?sp = Some (Dir es')" using lc Dir by simp
    have cl: "clonable newName (Dir es')" using cc Dir by simp
    from rec_ok [OF ls cl ne pa i1 i2] hc Dir obtain r1 where rc: "rec ?sp ?dp r = Some (None, r1)"
      by auto
    from rec [OF rc ls cl ne i1 i2] have "r1 = place r ?dp (clone_of oldName newName (Dir es'))" .
    from step [OF this] Dir obtain r'
      where "for_items rec e src dest oldName newName (map fst rest) r1 = Some (None, r')" by auto
    with st rc Dir a show ?thesis by (simp add: Let_def)
  next
    case (File content)
    from Cons.prems(3) a File have fresh: "?rn \<notin> fst ` set E" by auto
    then have m: "map_of E ?rn = None" by (simp add: map_of_fresh)
    have ls: "lookup r ?sp = Some (File content)" using lc File by simp
    from copyAndReplaceFile_ok [OF nf ls Cons.prems(2) m] obtain r1
      where cp: "copyAndReplaceFile e ?sp ?dp oldName newName r = (None, r1)" by blast
    have "r1 = place r ?dp
        (File (utf8_encode (replaceProjectNames (utf8_decode content) oldName newName)))"
      using cp ls
    proof (rule copyAndReplaceFile_place)
      show "existsSync r (butlast ?dp)" using Cons.prems(2) fresh by (rule place_entry(2))
      show "\<not> existsSync r ?dp" using Cons.prems(2) fresh by (rule place_entry(1))
    qed
    from step [OF this] File obtain r'
      where "for_items rec e src dest oldName newName (map fst rest) r1 = Some (None, r')" by auto
    with st cp File a show ?thesis by (simp add: Let_def)
  next
    case Special
    from Cons.prems(3) a Special
    have d: "distinct (map fst E @ map (\<lambda>(n, c). replace_sns_demo newName n) (copied rest))"
      by simp
    from Cons.IH [OF others Cons.prems(2) d] obtain r'
      where "for_items rec e src dest oldName newName (map fst rest) r = Some (None, r')" by blast
    with st Special a show ?thesis by (simp add: Let_def)
  qed
qed

lemma copyAndReplaceDir_succeeds:
  assumes nf: "\<And>op p. \<not> faulty e op p"
  shows "lookup r src = Some (Dir es) \<Longrightarrow> clonable newName (Dir es) \<Longrightarrow>
   \<not> existsSync r dest \<Longrightarrow> passable r dest \<Longrightarrow> \<not> prefix src dest \<Longrightarrow> \<not> prefix dest src \<Longrightarrow>
   height (Dir es) \<le> fuel \<Longrightarrow>
   \<exists>r'. copyAndReplaceDir fuel e src dest oldName newName r = Some (None, r')"
proof (induction fuel arbitrary: src dest r es)
  case 0
  then show ?case by simp
next
  case (Suc fuel)
  let ?rec = "\<lambda>s d r. copyAndReplaceDir fuel e s d oldName newName r"
  from Suc.prems(3) have "lookup r dest = None" by (simp add: existsSync_def)
  with mkdirs_ok [OF Suc.prems(4), of dest] obtain r1 where "mkdirs dest r dest = Inr r1" by auto
  then have mk: "mkdirSync e r dest = Inr r1" using nf by (simp add: mkdirSync_def)
  from mkdirSync_place [OF mk Suc.prems(3)]
  have r1: "r1 = place r dest (Dir [])" and pa: "passable r dest" by simp_all
  have l1: "lookup r1 src = Some (Dir es)"
    unfolding r1 using Suc.prems(1,5,6) by (simp add: lookup_place_other)
  then have rd: "readdirSync e r1 src = Inr (map fst es)"
    using nf by (simp add: readdirSync_def)
  have ld: "lookup r1 dest = Some (Dir [])"
    unfolding r1 using lookup_place [OF pa, of "Dir []" "[]"] by simp
  from Suc.prems(2) have dn: "distinct (map fst es)"
    and dr: "distinct (map (\<lambda>(n, c). replace_sns_demo newName n) (copied es))"
    and ch: "\<forall>(n, c) \<in> set es. clonable newName c" by simp_all
  have en: "\<forall>(n, c) \<in> set es. lookup r1 (src @ [n]) = Some c \<and> clonable newName c \<and> height c \<le> fuel"
  proof (clarify)
    fix n c assume m: "(n, c) \<in> set es"
    with dn have "map_of es n = Some c" by simp
    with l1 have "lookup r1 (src @ [n]) = Some c" by (simp add: lookup_append)
    moreover from height_child [OF m] Suc.prems(7) have "height c \<le> fuel" by simp
    ultimately show "lookup r1 (src @ [n]) = Some c \<and> clonable newName c \<and> height c \<le> fuel"
      using ch m by auto
  qed
  have "\<exists>r'. for_items ?rec e src dest oldName newName (map fst es) r1 = Some (None, r')"
  proof (rule for_items_succeeds [where rec = ?rec and fuel = fuel and E = "[]"])
    show "\<forall>(n, c) \<in> set es. lookup r1 (src @ [n]) = Some c \<and> clonable newName c \<and> height c \<le> fuel"
      by (rule en)
    show "lookup r1 dest = Some (Dir [])" by (rule ld)
    show "distinct (map fst [] @ map (\<lambda>(n, c). replace_sns_demo newName n) (copied es))"
      using dr by simp
    show "\<not> prefix src dest" "\<not> prefix dest src" by fact+
    show "\<And>op p. \<not> faulty e op p" by (rule nf)
  next
    fix s d r es'
    assume "lookup r s = Some (Dir es')" "clonable newName (Dir es')" "\<not> existsSync r d"
      "passable r d" "\<not> prefix s d" "\<not> prefix d s" "height (Dir es') \<le> fuel"
    then show "\<exists>r'. copyAndReplaceDir fuel e s d oldName newName r = Some (None, r')"
      by (rule Suc.IH)
  next
    fix s d r r' es'
    assume "copyAndReplaceDir fuel e s d oldName newName r = Some (None, r')"
      "lookup r s = Some (Dir es')" "clonable newName (Dir es')" "\<not> existsSync r d"
      "\<not> prefix s d" "\<not> prefix d s"
    then show "r' = place r d (clone_of oldName newName (Dir es'))"
      by (rule copyAndReplaceDir_place)
  qed
  with Suc.prems(3) mk rd show ?case by simp
qed

lemma map_of_renamed:
  assumes "distinct (map (\<lambda>(name, c). f name) (copied es))" "map_of es x = Some ch" "ch \<noteq> Special"
  shows "map_of (map (\<lambda>(name, c). (f name, g c)) (copied es)) (f x) = Some (g ch)"
proof (rule map_of_is_SomeI)
  have "map fst (map (\<lambda>(name, c). (f name, g c)) (copied es)) = map (\<lambda>(name, c). f name) (copied es)"
    by (induction es) auto
  with assms(1) show "distinct (map fst (map (\<lambda>(name, c). (f name, g c)) (copied es)))"
    by (simp only:)
  from assms(2) have "(x, ch) \<in> set es" by (rule map_of_SomeD)
  with assms(3) have "(x, ch) \<in> set (copied es)" by simp
  then show "(f x, g ch) \<in> set (map (\<lambda>(name, c). (f name, g c)) (copied es))" by force
qed

lemma lookup_clone_file:
  "clonable newName t \<Longrightarrow> lookup t p = Some (File c) \<Longrightarrow>
   lookup (clone_of oldName newName t) (map (replace_sns_demo newName) p) =
     Some (File (utf8_encode (replaceProjectNames (utf8_decode c) oldName newName)))"
proof (induction p arbitrary: t)
  case Nil
  then show ?case by simp
next
  case (Cons x p)
  show ?case
  proof (cases t)
    case (Dir es)
    with Cons.prems(2) obtain ch where ch: "map_of es x = Some ch" and l: "lookup ch p = Some (File c)"
      by (auto split: option.splits)
    from l have ns: "ch \<noteq> Special" by (cases p) auto
    from ch have "(x, ch) \<in> set es" by (rule map_of_SomeD)
    with Cons.prems(1) Dir have cl: "clonable newName ch" by auto
    from Cons.prems(1) Dir
    have "distinct (map (\<lambda>(name, c). replace_sns_demo newName name) (copied es))" by simp
    from map_of_renamed [OF this ch ns, of "clone_of oldName newName"]
    have "map_of (map (\<lambda>(name, c). (replace_sns_demo newName name, clone_of oldName newName c))
             (copied es)) (replace_sns_demo newName x) = Some (clone_of oldName newName ch)" .
    with Cons.IH [OF cl l] Dir show ?thesis by simp
  next
    case (File content)
    with Cons.prems show ?thesis by simp
  next
    case Special
    with Cons.prems show ?thesis by simp
  qed
qed

text \<open>
  Claim C4, as amended. Take a template directory, a valid project name, a destination
  that does not exist and does not lie inside the template, and suppose that in no directory
  of the template two entries have the same name, or get the same name by renaming
  (\<open>clonable\<close>). Then a clone that returns without error leaves at the destination exactly
  the tree \<open>clone_of\<close>: every file and directory of the template under its renamed name, so
  as many files and as many directories as the template has; the file at the renamed path
  of a file of the template holds, byte for byte, the UTF-8 encoding of the rewritten text
  that the bytes of that file decode to; and the template is unchanged. When no operation
  fails, no file is in the way of the destination and the fuel covers the depth of the
  template, the clone does return without error.
\<close>

theorem clone_tree_shape:
  assumes "validateProjectName newName"
    and "lookup root src = Some (Dir es)"
    and "clonable newName (Dir es)"
    and "\<not> existsSync root dest"
    and "\<not> prefix src dest"
  shows "(copyAndReplaceDir fuel e src dest oldName newName root = Some (None, root') \<longrightarrow>
           lookup root' dest = Some (clone_of oldName newName (Dir es)) \<and>
           count_files (clone_of oldName newName (Dir es)) = count_files (Dir es) \<and>
           count_dirs (clone_of oldName newName (Dir es)) = count_dirs (Dir es) \<and>
           (\<forall>p c. lookup (Dir es) p = Some (File c) \<longrightarrow>
              lookup root' (dest @ map (replace_sns_demo newName) p) =
                Some (File (utf8_encode (replaceProjectNames (utf8_decode c) oldName newName)))) \<and>
           lookup root' src = Some (Dir es)) \<and>
         ((\<forall>op p. \<not> faulty e op p) \<and> passable root dest \<and> height (Dir es) \<le> fuel \<longrightarrow>
           (\<exists>r. copyAndReplaceDir fuel e src dest oldName newName root = Some (None, r)))"
proof (intro conjI impI allI)
  have nd: "\<not> prefix dest src"
    using assms(2,4) exists_prefix by blast
  {
    assume ok: "copyAndReplaceDir fuel e src dest oldName newName root = Some (None, root')"
    from copyAndReplaceDir_place [OF ok assms(2-4) assms(5) nd]
    have r': "root' = place root dest (clone_of oldName newName (Dir es))" .
    have pa: "passable root dest" using ok assms(4) by (rule mkdir_first)
    show ld: "lookup root' dest = Some (clone_of oldName newName (Dir es))"
      unfolding r' using lookup_place [OF pa, of _ "[]"] by simp
    show "lookup root' src = Some (Dir es)"
      unfolding r' using assms(2,5) nd by (simp add: lookup_place_other)
    show "count_files (clone_of oldName newName (Dir es)) = count_files (Dir es)"
      by (rule count_files_clone)
    show "count_dirs (clone_of oldName newName (Dir es)) = count_dirs (Dir es)"
      by (rule count_dirs_clone)
    fix p c
    assume "lookup (Dir es) p = Some (File c)"
    from lookup_clone_file [OF assms(3) this, of oldName] ld
    show "lookup root' (dest @ map (replace_sns_demo newName) p) =
        Some (File (utf8_encode (replaceProjectNames (utf8_decode c) oldName newName)))"
      by (simp add: lookup_append)
  }
  assume "(\<forall>op p. \<not> faulty e op p) \<and> passable root dest \<and> height (Dir es) \<le> fuel"
  then show "\<exists>r. copyAndReplaceDir fuel e src dest oldName newName root = Some (None, r)"
    using copyAndReplaceDir_succeeds [of e root src es newName dest fuel oldName] assms(2-5) nd
    by blast
qed

text \<open>
  The theorem on the template with one module: the clone returns the tree below, with the
  two files and the two directories of the template under their new names, and the
  descriptor of the module with its rewritten bytes.
\<close>

theorem clone_tree_shape_witness:
  "copyAndReplaceDir 5 example_env [str ''work'', str ''sns-demo''] [str ''work'', str ''zoo'']
     (str ''demo'') (str ''zoo'') example_fresh =
     Some (None, Dir [(str ''work'', Dir [(str ''sns-demo'', example_template),
       (str ''zoo'', Dir [(str ''zoo-app'', Dir [(str ''pom.xml'', File ''<artifactId>zoo-app</artifactId>'')]),
                      (str ''pom.xml'', File ''<name>zoo</name>'')])])]) \<and>
   clone_of (str ''demo'') (str ''zoo'') example_template =
     Dir [(str ''zoo-app'', Dir [(str ''pom.xml'', File ''<artifactId>zoo-app</artifactId>'')]),
          (str ''pom.xml'', File ''<name>zoo</name>'')] \<and>
   count_files (clone_of (str ''demo'') (str ''zoo'') example_template) = 2 \<and>
   count_dirs (clone_of (str ''demo'') (str ''zoo'') example_template) = 2 \<and>
   utf8_encode (replaceProjectNames (utf8_decode ''<artifactId>sns-demo-app</artifactId>'')
     (str ''demo'') (str ''zoo'')) = ''<artifactId>zoo-app</artifactId>''"
proof -
  let ?c = "Dir [(str ''zoo-app'', Dir [(str ''pom.xml'', File ''<artifactId>zoo-app</artifactId>'')]),
                 (str ''pom.xml'', File ''<name>zoo</name>'')]"
  let ?r' = "Dir [(str ''work'', Dir [(str ''sns-demo'', example_template), (str ''zoo'', ?c)])]"
  let ?es = "[(str ''sns-demo-app'', Dir [(str ''pom.xml'', File ''<artifactId>sns-demo-app</artifactId>'')]),
          (str ''pom.xml'', File ''<name>sns-demo</name>'')]"
  let ?p = "[str ''sns-demo-app'', str ''pom.xml'']"
  have t: "example_template = Dir ?es" by (simp add: example_template_def)
  have 0: "validateProjectName (str ''zoo'')" by code_simp
  have 2: "lookup example_fresh [str ''work'', str ''sns-demo''] = Some (Dir ?es)" by code_simp
  have 3: "clonable (str ''zoo'') (Dir ?es)" by code_simp
  have 4: "\<not> existsSync example_fresh [str ''work'', str ''zoo'']" by code_simp
  have 5: "\<not> prefix [str ''work'', str ''sns-demo''] [str ''work'', str ''zoo'']" by simp
  have 6: "count_files (Dir ?es) = 2" "count_dirs (Dir ?es) = 2" by simp_all
  have 7: "(\<forall>op p. \<not> faulty example_env op p) \<and> passable example_fresh [str ''work'', str ''zoo''] \<and>
     height (Dir ?es) \<le> 5"
    by (simp add: example_env_def example_fresh_def)
  have 8: "lookup (Dir ?es) ?p = Some (File ''<artifactId>sns-demo-app</artifactId>'')" by code_simp
  have 9: "lookup ?r' ([str ''work'', str ''zoo''] @ map (replace_sns_demo (str ''zoo'')) ?p) =
     Some (File ''<artifactId>zoo-app</artifactId>'')" by code_simp
  have 10: "lookup ?r' [str ''work'', str ''zoo''] = Some ?c" by code_simp
  note shape = clone_tree_shape [OF 0 2 3 4 5, of 5 example_env "str ''demo''"]
  have run: "copyAndReplaceDir 5 example_env [str ''work'', str ''sns-demo''] [str ''work'', str ''zoo'']
          (str ''demo'') (str ''zoo'') example_fresh = Some (None, ?r')"
    by code_simp
  from shape [of ?r'] run 7 have
    "lookup ?r' [str ''work'', str ''zoo''] = Some (clone_of (str ''demo'') (str ''zoo'') (Dir ?es))"
    "count_files (clone_of (str ''demo'') (str ''zoo'') (Dir ?es)) = count_files (Dir ?es)"
    "count_dirs (clone_of (str ''demo'') (str ''zoo'') (Dir ?es)) = count_dirs (Dir ?es)"
    "lookup ?r' ([str ''work'', str ''zoo''] @ map (replace_sns_demo (str ''zoo'')) ?p) =
       Some (File (utf8_encode (replaceProjectNames
         (utf8_decode ''<artifactId>sns-demo-app</artifactId>'') (str ''demo'') (str ''zoo''))))"
    using 8 by blast+
  with run 6 9 10 show ?thesis unfolding t by simp
qed

text \<open>
  The claim as stated fails in two ways. Two files of one directory get the same name by
  renaming, and the second overwrites the first, so that the clone of a template with two
  files has one. And a file whose bytes are not UTF-8 is not copied byte for byte, although
  the rewriter finds nothing to replace in it: the bytes that do not decode are written as
  the encoding of U+FFFD. The file of well-formed UTF-8 next to it is rewritten as the claim
  says.
\<close>

theorem clone_tree_shape_counterexample:
  "lookup example_clash [str ''work'', str ''sns-demo''] =
     Some (Dir [(str ''sns-demo.txt'', File ''first''), (str ''zoo.txt'', File ''second'')]) \<and>
   count_files (Dir [(str ''sns-demo.txt'', File ''first''), (str ''zoo.txt'', File ''second'')]) = 2 \<and>
   validateProjectName (str ''zoo'') \<and>
   \<not> existsSync example_clash [str ''work'', str ''zoo''] \<and>
   copyAndReplaceDir 5 example_env [str ''work'', str ''sns-demo''] [str ''work'', str ''zoo'']
     (str ''demo'') (str ''zoo'') example_clash =
     Some (None, Dir [(str ''work'', Dir [(str ''sns-demo'',
       Dir [(str ''sns-demo.txt'', File ''first''), (str ''zoo.txt'', File ''second'')]),
       (str ''zoo'', Dir [(str ''zoo.txt'', File ''second'')])])]) \<and>
   count_files (Dir [(str ''zoo.txt'', File ''second'')]) = 1 \<and>
   lookup example_bytes [str ''work'', str ''sns-demo'', str ''data.bin''] =
     Some (File [CHR 0xFF, CHR 0xFE, CHR 0xE9]) \<and>
   \<not> existsSync example_bytes [str ''work'', str ''zoo''] \<and>
   replaceProjectNames (utf8_decode [CHR 0xFF, CHR 0xFE, CHR 0xE9]) (str ''demo'') (str ''zoo'') =
     utf8_decode [CHR 0xFF, CHR 0xFE, CHR 0xE9] \<and>
   copyAndReplaceDir 5 example_env [str ''work'', str ''sns-demo''] [str ''work'', str ''zoo'']
     (str ''demo'') (str ''zoo'') example_bytes =
     Some (None, Dir [(str ''work'', Dir [(str ''sns-demo'',
       Dir [(str ''text.txt'', File ([CHR 0xE4, CHR 0xB8, CHR 0xAD] @ ''sns-demo'')),
            (str ''data.bin'', File [CHR 0xFF, CHR 0xFE, CHR 0xE9])]),
       (str ''zoo'',
          Dir [(str ''text.txt'', File ([CHR 0xE4, CHR 0xB8, CHR 0xAD] @ ''zoo'')),
               (str ''data.bin'',
                File [CHR 0xEF, CHR 0xBF, CHR 0xBD, CHR 0xEF, CHR 0xBF, CHR 0xBD,
                      CHR 0xEF, CHR 0xBF, CHR 0xBD])])])])"
  by code_simp

end
